theory Spec2Isabelle
  imports Main "HOL-Library.AList" "HOL-Library.Word"
begin

section \<open>The task queue (package concurrent, TaskQueue)\<close>

text \<open>
  The queue is a slice \<open>tasks\<close> with a read index \<open>head\<close>, a \<open>done\<close> flag, three
  atomic counters and a condition variable. Every method runs under the queue's mutex, so a
  method body (or, for \<open>Pop\<close>, the part of the body between two waits) is one atomic step on
  the record below.

  \<^item> The element type \<open>types.Task\<close> is a type parameter: the queue never looks inside a task.
  \<^item> \<open>head\<close> starts at 0 and is only incremented or reset to 0, so it is a natural number.
  \<^item> The counters are \<open>atomic.Int64\<close>; \<open>size\<close> is bounded by the length of the slice and the
    other two by the number of goroutines, so none of them can leave the 64-bit range and
    they are integers here.
  \<^item> The condition variable is represented by the log of the calls made on it, oldest first.
\<close>

datatype cond_event = Signal | Broadcast

record 'a TaskQueue =
  tasks :: "'a list"
  head :: nat
  done_flag :: bool
  idleWorkers :: int
  waiting :: int
  size_ctr :: int
  cond_log :: "cond_event list"

definition NewTaskQueue :: "'a TaskQueue" where
  "NewTaskQueue =
     \<lparr>tasks = [], head = 0, done_flag = False, idleWorkers = 0, waiting = 0,
      size_ctr = 0, cond_log = []\<rparr>"

text \<open>The loop \<open>for i := 0; i < maxSignals; i++ { q.cond.Signal() }\<close>.\<close>

function signal_loop :: "int \<Rightarrow> int \<Rightarrow> 'a TaskQueue \<Rightarrow> 'a TaskQueue" where
  "signal_loop i maxSignals q =
     (if i < maxSignals
      then signal_loop (i + 1) maxSignals (q\<lparr>cond_log := cond_log q @ [Signal]\<rparr>)
      else q)"
  by pat_completeness auto
termination
  by (relation "measure (\<lambda>(i, maxSignals, q). nat (maxSignals - i))") auto

declare signal_loop.simps [simp del]

definition signalWaitingWorkersLocked :: "int \<Rightarrow> 'a TaskQueue \<Rightarrow> 'a TaskQueue" where
  "signalWaitingWorkersLocked maxSignals q =
     (if maxSignals \<le> 0 then q
      else if waiting q \<le> 0 then q
      else signal_loop 0 (if maxSignals > waiting q then waiting q else maxSignals) q)"

definition Push :: "'a \<Rightarrow> 'a TaskQueue \<Rightarrow> 'a TaskQueue" where
  "Push t q =
     signalWaitingWorkersLocked 1 (q\<lparr>tasks := tasks q @ [t], size_ctr := size_ctr q + 1\<rparr>)"

definition PushMultiple :: "'a list \<Rightarrow> 'a TaskQueue \<Rightarrow> 'a TaskQueue" where
  "PushMultiple ts q =
     (if length ts = 0 then q
      else signalWaitingWorkersLocked (int (length ts))
             (q\<lparr>tasks := tasks q @ ts, size_ctr := size_ctr q + int (length ts)\<rparr>))"

text \<open>
  \<open>Pop\<close> from the head of its loop. When the queue is empty and not closed the goroutine
  counts itself as idle and waiting and sleeps in \<open>cond.Wait\<close>, which releases the mutex:
  the call has not returned (\<open>Waits\<close>, with the state it leaves behind). When it is woken it
  takes the mutex again, undoes the two counters and is back at the head of the loop
  (\<open>Pop_wake\<close>). Indexing the slice at or beyond its length panics in Go (\<open>Panics\<close>).
  The result \<open>(types.Task{}, false)\<close> is \<open>None\<close> and \<open>(t, true)\<close> is \<open>Some t\<close>.
\<close>

datatype ('r, 's) outcome = Waits 's | Panics | Returns 'r 's

definition Pop :: "'a TaskQueue \<Rightarrow> ('a option, 'a TaskQueue) outcome" where
  "Pop q =
     (if length (tasks q) = head q \<and> \<not> done_flag q
      then Waits (q\<lparr>idleWorkers := idleWorkers q + 1, waiting := waiting q + 1\<rparr>)
      else if length (tasks q) = head q then Returns None q
      else if length (tasks q) \<le> head q then Panics
      else
        let t = tasks q ! head q;
            q1 = q\<lparr>head := head q + 1, size_ctr := size_ctr q - 1\<rparr>
        in if head q1 > length (tasks q1) div 2
           then Returns (Some t) (q1\<lparr>tasks := drop (head q1) (tasks q1), head := 0\<rparr>)
           else Returns (Some t) q1)"

definition Pop_wake :: "'a TaskQueue \<Rightarrow> ('a option, 'a TaskQueue) outcome" where
  "Pop_wake q = Pop (q\<lparr>waiting := waiting q - 1, idleWorkers := idleWorkers q - 1\<rparr>)"

definition Close :: "'a TaskQueue \<Rightarrow> 'a TaskQueue" where
  "Close q = q\<lparr>done_flag := True, cond_log := cond_log q @ [Broadcast]\<rparr>"

definition Len :: "'a TaskQueue \<Rightarrow> int" where
  "Len q = size_ctr q"

definition IdleWorkers :: "'a TaskQueue \<Rightarrow> int" where
  "IdleWorkers q = idleWorkers q"

text \<open>\<open>DrainRemaining\<close> returns \<open>nil\<close> (the empty list) or a copy of \<open>tasks[head:]\<close>.\<close>

definition DrainRemaining :: "'a TaskQueue \<Rightarrow> 'a list \<times> 'a TaskQueue" where
  "DrainRemaining q =
     (if head q \<ge> length (tasks q) then ([], q)
      else (drop (head q) (tasks q), q\<lparr>tasks := [], head := 0, size_ctr := 0\<rparr>))"

text \<open>
  The pending tasks are the part of the slice from \<open>head\<close> on. Two facts hold in every state
  the methods can produce: \<open>head\<close> never passes the end of the slice, and the \<open>size\<close> counter
  is the number of pending tasks.
\<close>

definition pending_tasks :: "'a TaskQueue \<Rightarrow> 'a list" where
  "pending_tasks q = drop (head q) (tasks q)"

definition queue_inv :: "'a TaskQueue \<Rightarrow> bool" where
  "queue_inv q \<longleftrightarrow>
     head q \<le> length (tasks q) \<and> size_ctr q = int (length (tasks q)) - int (head q)"

text \<open>
  The states of a queue in use: those that the atomic steps of any number of goroutines
  produce from \<open>NewTaskQueue\<close>, in any interleaving. A wake-up is allowed in every state,
  also when no goroutine waits: this adds states and removes none.
\<close>

inductive reachable :: "'a TaskQueue \<Rightarrow> bool" where
  r_new: "reachable NewTaskQueue"
| r_push: "reachable q \<Longrightarrow> reachable (Push t q)"
| r_push_multiple: "reachable q \<Longrightarrow> reachable (PushMultiple ts q)"
| r_pop_returns: "reachable q \<Longrightarrow> Pop q = Returns r q' \<Longrightarrow> reachable q'"
| r_pop_waits: "reachable q \<Longrightarrow> Pop q = Waits q' \<Longrightarrow> reachable q'"
| r_wake_returns: "reachable q \<Longrightarrow> Pop_wake q = Returns r q' \<Longrightarrow> reachable q'"
| r_wake_waits: "reachable q \<Longrightarrow> Pop_wake q = Waits q' \<Longrightarrow> reachable q'"
| r_close: "reachable q \<Longrightarrow> reachable (Close q)"
| r_drain: "reachable q \<Longrightarrow> reachable (snd (DrainRemaining q))"

text \<open>
  A sequential caller: \<open>n\<close> calls of \<open>Pop\<close> one after the other, with the results in the
  order of the calls. If one of the calls waits, nobody is left to wake it.
\<close>

fun pop_n :: "nat \<Rightarrow> 'a TaskQueue \<Rightarrow> ('a option list, 'a TaskQueue) outcome" where
  "pop_n 0 q = Returns [] q"
| "pop_n (Suc n) q =
     (case Pop q of
        Waits q' \<Rightarrow> Waits q'
      | Panics \<Rightarrow> Panics
      | Returns r q' \<Rightarrow>
          (case pop_n n q' of
             Waits q'' \<Rightarrow> Waits q''
           | Panics \<Rightarrow> Panics
           | Returns rs q'' \<Rightarrow> Returns (r # rs) q''))"

text \<open>A sequence of calls of \<open>Push\<close> and \<open>PushMultiple\<close>, and the tasks it hands over.\<close>

datatype 'a push_call = PushCall 'a | PushMultipleCall "'a list"

fun run_pushes :: "'a push_call list \<Rightarrow> 'a TaskQueue \<Rightarrow> 'a TaskQueue" where
  "run_pushes [] q = q"
| "run_pushes (PushCall t # cs) q = run_pushes cs (Push t q)"
| "run_pushes (PushMultipleCall ts # cs) q = run_pushes cs (PushMultiple ts q)"

fun pushed :: "'a push_call list \<Rightarrow> 'a list" where
  "pushed [] = []"
| "pushed (PushCall t # cs) = t # pushed cs"
| "pushed (PushMultipleCall ts # cs) = ts @ pushed cs"

section \<open>Errors\<close>

text \<open>
  Go errors as values. \<open>Errorf\<close> is \<open>fmt.Errorf\<close> with a fixed text, \<open>Wrapf p e\<close> is
  \<open>fmt.Errorf(p + ": %w", e)\<close>, \<open>UnexpectedStatus c\<close> is
  \<open>fmt.Errorf("unexpected status code: %d", c)\<close>, and \<open>External\<close> is an error handed over by
  the operating system, the HTTP client, \<open>encoding/json\<close> or the context.
\<close>

datatype error =
    Errorf string
  | Wrapf string error
  | UnexpectedStatus int
  | External string

section \<open>The redirect policy (package single, newSingleClient)\<close>

text \<open>
  \<open>http.Header\<close> is a Go map from header names to lists of values. It is represented by the
  list of its entries; the keys of a Go map are distinct, and the order of the list is the
  order in which \<open>range\<close> happens to visit the entries. Looking a header up is \<open>map_of\<close>, and
  the assignment \<open>h[key] = vals\<close> is \<open>AList.update\<close>.
\<close>

type_synonym Header = "(string \<times> string list) list"

record Request =
  Method :: string
  URL :: string
  Header :: Header

text \<open>The loop \<open>for key, vals := range src { dst[key] = vals }\<close>.\<close>

fun range_assign :: "Header \<Rightarrow> Header \<Rightarrow> Header" where
  "range_assign [] dst = dst"
| "range_assign ((key, vals) # src) dst = range_assign src (AList.update key vals dst)"

text \<open>
  The \<open>CheckRedirect\<close> function of the client. \<open>req\<close> is the request about to be sent and
  \<open>via\<close> the requests made so far, oldest first; \<open>Inl\<close> is the error returned and \<open>Inr\<close> the
  request as the function leaves it when it returns \<open>nil\<close>.
\<close>

definition CheckRedirect :: "Request \<Rightarrow> Request list \<Rightarrow> error + Request" where
  "CheckRedirect req via =
     (if length via \<ge> 10 then Inl (Errorf ''stopped after 10 redirects'')
      else if length via > 0
      then Inr (req\<lparr>Header := range_assign (Header (via ! 0)) (Header req)\<rparr>)
      else Inr req)"

section \<open>The single-connection fetcher (package single)\<close>

subsection \<open>The progress reader\<close>

text \<open>
  Modelled from the spec: \<open>types.ProgressState\<close> is declared outside the files at hand; the
  fetcher uses its two atomic counters \<open>Downloaded\<close> and \<open>VerifiedProgress\<close> (the spec's
  \<open>downloaded\<close> and \<open>verified_progress\<close>).
\<close>

record ProgressState =
  Downloaded :: int
  VerifiedProgress :: int

text \<open>
  Byte counts are \<open>int64\<close>: an addition wraps around at \<open>2^63\<close>. \<open>readChecks\<close> is a
  \<open>uint8\<close>. A \<open>time.Time\<close> is the reading of a clock in nanoseconds, and \<open>t.Sub(u)\<close> is the
  difference, saturating at the ends of \<open>time.Duration\<close>.
\<close>

definition wrap64 :: "int \<Rightarrow> int" where
  "wrap64 x = (x + 2 ^ 63) mod 2 ^ 64 - 2 ^ 63"

definition time_Sub :: "int \<Rightarrow> int \<Rightarrow> int" where
  "time_Sub t u = max (- (2 ^ 63)) (min (2 ^ 63 - 1) (t - u))"

text \<open>
  The field \<open>state\<close> is a pointer to the shared progress state, or \<open>nil\<close>; the reader is the
  only writer of the two counters while the copy runs, so the record holds what the pointer
  points to. The field \<open>reader\<close> (the response body) is left out: what a call of its \<open>Read\<close>
  returns is an argument of \<open>Read\<close> below.
\<close>

record progressReader =
  state :: "ProgressState option"
  batchSize :: int
  batchInterval :: int
  written :: int
  pending :: int
  lastFlush :: int
  readChecks :: "8 word"

text \<open>
  \<open>types.WorkerBatchSize\<close> is declared outside the files at hand and is a parameter;
  \<open>now\<close> is the value of \<open>time.Now()\<close>.
\<close>

definition newProgressReader ::
    "int \<Rightarrow> ProgressState option \<Rightarrow> int \<Rightarrow> int \<Rightarrow> int \<Rightarrow> progressReader" where
  "newProgressReader WorkerBatchSize st bsize binterval now =
     \<lparr>state = st,
      batchSize = (if bsize \<le> 0 then WorkerBatchSize else bsize),
      batchInterval = binterval,
      written = 0, pending = 0, lastFlush = now, readChecks = 0\<rparr>"

definition flushWithTime :: "int \<Rightarrow> progressReader \<Rightarrow> progressReader" where
  "flushWithTime now w =
     (case state w of
        None \<Rightarrow> w\<lparr>pending := 0, lastFlush := now, readChecks := 0\<rparr>
      | Some s \<Rightarrow>
          if pending w = 0 \<and> written w = 0 then w
          else w\<lparr>state := Some (s\<lparr>Downloaded := written w, VerifiedProgress := written w\<rparr>),
                 pending := 0, lastFlush := now, readChecks := 0\<rparr>)"

definition Flush :: "int \<Rightarrow> progressReader \<Rightarrow> progressReader" where
  "Flush now w = flushWithTime now w"

text \<open>
  \<open>Read\<close>: \<open>n\<close> is the number of bytes the underlying reader returned and \<open>now\<close> what
  \<open>time.Now()\<close> returns if the call asks for it. \<open>Read\<close> passes \<open>n\<close> and the underlying
  reader's error on unchanged, so only its effect on the reader is written out.
\<close>

definition Read :: "int \<Rightarrow> int \<Rightarrow> progressReader \<Rightarrow> progressReader" where
  "Read n now w =
     (if n \<le> 0 \<or> state w = None then w
      else
        let w1 = w\<lparr>written := wrap64 (written w + n), pending := wrap64 (pending w + n)\<rparr>
        in if pending w1 \<ge> batchSize w1 then flushWithTime now w1
           else if batchInterval w1 > 0
           then
             let w2 = w1\<lparr>readChecks := readChecks w1 + 1\<rparr>
             in if readChecks w2 \<ge> 8
                then (if time_Sub now (lastFlush w2) \<ge> batchInterval w2
                      then flushWithTime now w2 else w2)\<lparr>readChecks := 0\<rparr>
                else w2
           else w1)"

text \<open>
  The reads that \<open>io.CopyBuffer\<close> makes on the progress reader, one after the other; each is
  the pair of the byte count returned by the body and the clock at that moment. The
  result is the reader after every read, oldest first.
\<close>

fun reads :: "(int \<times> int) list \<Rightarrow> progressReader \<Rightarrow> progressReader list" where
  "reads [] w = []"
| "reads ((n, now) # rs) w = Read n now w # reads rs (Read n now w)"

text \<open>
  The successive contents of the shared progress state, as a list of readers leaves them.
\<close>

fun progress_of :: "progressReader list \<Rightarrow> ProgressState list" where
  "progress_of [] = []"
| "progress_of (w # ws) =
     (case state w of None \<Rightarrow> progress_of ws | Some s \<Rightarrow> s # progress_of ws)"

subsection \<open>Download\<close>

text \<open>
  \<open>Download\<close> talks to the HTTP client, the file system, the clock and the context. What it
  does is recorded as the list of the calls it makes, in order; what the calls answer is
  given by the environment \<open>env\<close>, one field per call site.
\<close>

type_synonym path = string

datatype call =
    ClientDo string
  | BodyClose
  | CloseIdleConnections
  | OsCreate path
  | Fallocate path int
  | FileTruncate path int
  | StreamBody path
  | FileSync path
  | FileClose path
  | OsRename path path
  | OsOpen path
  | CopyData path path
  | OsRemove path

fun touches_filesystem :: "call \<Rightarrow> bool" where
  "touches_filesystem (ClientDo u) = False"
| "touches_filesystem BodyClose = False"
| "touches_filesystem CloseIdleConnections = False"
| "touches_filesystem c = True"

record env =
  linux :: bool
  newRequest_err :: "error option"
  do_result :: "error + int"
  create_err :: "error option"
  fallocate_err :: "error option"
  prealloc_truncate_err :: "error option"
  start_clock :: int
  body_reads :: "(int \<times> int) list"
  flush_clock :: int
  copy_result :: "int \<times> error option"
  ctx_err :: "error option"
  truncate_err :: "error option"
  sync_err :: "error option"
  close_err :: "error option"
  rename_err :: "error option"
  copy_open_err :: "error option"
  copy_create_err :: "error option"
  copy_data_err :: "error option"
  copy_sync_err :: "error option"

text \<open>
  \<^item> \<open>linux\<close>: which of the two builds of \<open>preallocateFile\<close> is compiled in.
  \<^item> \<open>do_result\<close>: the error of \<open>Client.Do\<close>, or the status code of the response.
  \<^item> \<open>start_clock\<close>, \<open>flush_clock\<close>: \<open>time.Now()\<close> in \<open>newProgressReader\<close> and in \<open>Flush\<close>.
  \<^item> \<open>body_reads\<close>: the reads \<open>io.CopyBuffer\<close> makes on the progress reader.
  \<^item> \<open>copy_result\<close>: what \<open>io.CopyBuffer\<close> returns, the bytes written and the error.
  \<^item> \<open>ctx_err\<close>: \<open>ctx.Err()\<close> after a failed copy.
  \<^item> the other fields: the error, if any, of the call they are named after.
\<close>

text \<open>
  Modelled from the spec: \<open>types.IncompleteSuffix\<close> is declared outside the files at hand;
  the spec names the working file \<open><dest>.surge\<close>.
\<close>

definition IncompleteSuffix :: string where
  "IncompleteSuffix = ''.surge''"

text \<open>
  The constants \<open>types.WorkerBatchSize\<close> and \<open>types.WorkerBatchInterval\<close> are declared
  outside the files at hand and are parameters.
\<close>

record types_pkg =
  WorkerBatchSize :: int
  WorkerBatchInterval :: int

text \<open>
  The fields of \<open>SingleDownloader\<close> that \<open>Download\<close> reads, apart from the client and the
  runtime configuration, whose answers are in the environment.
\<close>

record SingleDownloader =
  ID :: string
  State :: "ProgressState option"
  Headers :: "(string \<times> string) list"

record result =
  ret :: "error option"
  calls :: "call list"
  updates :: "ProgressState list"

text \<open>
  \<open>ret\<close> is the error returned (\<open>None\<close> for \<open>nil\<close>), \<open>calls\<close> the calls made, and \<open>updates\<close>
  the contents of the shared progress state after each step that may store to it: every
  \<open>Read\<close> of the progress reader, the \<open>Flush\<close> after the copy, and the two stores after the
  file is closed.
\<close>

definition preallocateFile :: "env \<Rightarrow> path \<Rightarrow> int \<Rightarrow> error option \<times> call list" where
  "preallocateFile e file sz =
     (if sz \<le> 0 then (None, [])
      else if linux e
      then (case fallocate_err e of
              None \<Rightarrow> (None, [Fallocate file sz])
            | Some err \<Rightarrow> (prealloc_truncate_err e, [Fallocate file sz, FileTruncate file sz]))
      else (prealloc_truncate_err e, [FileTruncate file sz]))"

text \<open>\<open>copyFile\<close>; the two deferred \<open>Close\<close> calls run in reverse order of their \<open>defer\<close>.\<close>

definition copyFile :: "env \<Rightarrow> path \<Rightarrow> path \<Rightarrow> error option \<times> call list" where
  "copyFile e src dst =
     (case copy_open_err e of
        Some err \<Rightarrow> (Some err, [OsOpen src])
      | None \<Rightarrow>
          (case copy_create_err e of
             Some err \<Rightarrow> (Some err, [OsOpen src, OsCreate dst, FileClose src])
           | None \<Rightarrow>
               (case copy_data_err e of
                  Some err \<Rightarrow>
                    (Some err, [OsOpen src, OsCreate dst, CopyData src dst, FileClose dst, FileClose src])
                | None \<Rightarrow>
                    (copy_sync_err e,
                     [OsOpen src, OsCreate dst, CopyData src dst, FileSync dst, FileClose dst,
                      FileClose src]))))"

text \<open>
  The progress states during the copy: none when \<open>d.State\<close> is \<open>nil\<close> (the body is copied
  directly), otherwise those left by the reads of a new progress reader and by the \<open>Flush\<close>
  that follows the copy.
\<close>

definition copy_updates :: "types_pkg \<Rightarrow> env \<Rightarrow> ProgressState option \<Rightarrow> ProgressState list" where
  "copy_updates T e st =
     (case st of
        None \<Rightarrow> []
      | Some s \<Rightarrow>
          let progressReader =
                newProgressReader (WorkerBatchSize T) (Some s) (WorkerBatchSize T)
                  (WorkerBatchInterval T) (start_clock e);
              rs = reads (body_reads e) progressReader
          in progress_of (rs @ [Flush (flush_clock e) (last (progressReader # rs))]))"

text \<open>
  The part of \<open>Download\<close> from \<open>start := time.Now()\<close> to its end, that is, the part that
  runs after the cleanup function has been deferred. It returns \<open>nil\<close> on exactly one
  path, the one that sets \<open>success = true\<close> first.
\<close>

definition Download_copy ::
    "types_pkg \<Rightarrow> SingleDownloader \<Rightarrow> env \<Rightarrow> path \<Rightarrow> path \<Rightarrow> int \<Rightarrow> bool \<Rightarrow> result" where
  "Download_copy T d e workingPath destPath fileSize preallocated =
     (let us = copy_updates T e (State d);
          n = fst (copy_result e)
      in case snd (copy_result e) of
           Some err \<Rightarrow>
             (case ctx_err e of
                Some ctxErr \<Rightarrow> \<lparr>ret = Some ctxErr, calls = [StreamBody workingPath], updates = us\<rparr>
              | None \<Rightarrow>
                  \<lparr>ret = Some (Wrapf ''copy error'' err), calls = [StreamBody workingPath],
                   updates = us\<rparr>)
         | None \<Rightarrow>
             let truncates = preallocated \<and> n \<noteq> fileSize;
                 cs1 = StreamBody workingPath #
                         (if truncates then [FileTruncate workingPath n] else [])
             in case (if truncates then truncate_err e else None) of
                  Some err \<Rightarrow> \<lparr>ret = Some (Wrapf ''truncate error'' err), calls = cs1, updates = us\<rparr>
                | None \<Rightarrow>
                    (case sync_err e of
                       Some err \<Rightarrow>
                         \<lparr>ret = Some (Wrapf ''sync error'' err),
                          calls = cs1 @ [FileSync workingPath], updates = us\<rparr>
                     | None \<Rightarrow>
                         (case close_err e of
                            Some err \<Rightarrow>
                              \<lparr>ret = Some (Wrapf ''close error'' err),
                               calls = cs1 @ [FileSync workingPath, FileClose workingPath],
                               updates = us\<rparr>
                          | None \<Rightarrow>
                              let us2 =
                                    (case State d of
                                       None \<Rightarrow> us
                                     | Some s \<Rightarrow>
                                         us @ [(last (s # us))
                                                 \<lparr>Downloaded := n, VerifiedProgress := n\<rparr>]);
                                  cs2 = cs1 @ [FileSync workingPath, FileClose workingPath,
                                               OsRename workingPath destPath]
                              in case rename_err e of
                                   None \<Rightarrow> \<lparr>ret = None, calls = cs2, updates = us2\<rparr>
                                 | Some err \<Rightarrow>
                                     (case copyFile e workingPath destPath of
                                        (Some copyErr, cs) \<Rightarrow>
                                          \<lparr>ret = Some (Wrapf ''failed to finalize file'' copyErr),
                                           calls = cs2 @ cs, updates = us2\<rparr>
                                      | (None, cs) \<Rightarrow>
                                          \<lparr>ret = None, calls = cs2 @ cs @ [OsRemove workingPath],
                                           updates = us2\<rparr>))))"

text \<open>
  The part of \<open>Download\<close> that follows a response. Once the cleanup function is deferred
  it runs whenever the function returns: it closes the file and, unless \<open>success\<close> was
  set, removes the working file.
\<close>

definition Download_response ::
    "types_pkg \<Rightarrow> SingleDownloader \<Rightarrow> env \<Rightarrow> path \<Rightarrow> int \<Rightarrow> int \<Rightarrow> result" where
  "Download_response T d e destPath fileSize StatusCode =
     (if StatusCode \<noteq> 200
      then \<lparr>ret = Some (UnexpectedStatus StatusCode), calls = [], updates = []\<rparr>
      else
        let workingPath = destPath @ IncompleteSuffix
        in case create_err e of
             Some err \<Rightarrow> \<lparr>ret = Some err, calls = [OsCreate workingPath], updates = []\<rparr>
           | None \<Rightarrow>
               (case (if fileSize > 0 then preallocateFile e workingPath fileSize else (None, [])) of
                  (Some err, pcs) \<Rightarrow>
                    \<lparr>ret = Some (Wrapf ''failed to preallocate file'' err),
                     calls = OsCreate workingPath # pcs, updates = []\<rparr>
                | (None, pcs) \<Rightarrow>
                    let preallocated = fileSize > 0;
                        r = Download_copy T d e workingPath destPath fileSize preallocated;
                        success = (ret r = None)
                    in r\<lparr>calls := OsCreate workingPath # pcs @ calls r @
                                    FileClose workingPath #
                                    (if \<not> success then [OsRemove workingPath] else [])\<rparr>))"

text \<open>
  \<open>Download\<close>. The deferred \<open>CloseIdleConnections\<close> runs on every return and the deferred
  \<open>resp.Body.Close\<close> on every return after a response. The request itself (method, URL,
  the caller's headers and the user agent) goes to the client and plays no part in what
  follows; the parameter \<open>filename\<close> is not used by the function.
\<close>

definition Download ::
    "types_pkg \<Rightarrow> SingleDownloader \<Rightarrow> env \<Rightarrow> string \<Rightarrow> path \<Rightarrow> int \<Rightarrow> string \<Rightarrow> result" where
  "Download T d e rawurl destPath fileSize filename =
     (case newRequest_err e of
        Some err \<Rightarrow> \<lparr>ret = Some err, calls = [CloseIdleConnections], updates = []\<rparr>
      | None \<Rightarrow>
          (case do_result e of
             Inl err \<Rightarrow>
               \<lparr>ret = Some err, calls = [ClientDo rawurl, CloseIdleConnections], updates = []\<rparr>
           | Inr StatusCode \<Rightarrow>
               let r = Download_response T d e destPath fileSize StatusCode
               in r\<lparr>calls := ClientDo rawurl # calls r @ [BodyClose, CloseIdleConnections]\<rparr>))"

text \<open>The invariant of the progress state that the fetcher has to keep.\<close>

definition progress_inv :: "ProgressState \<Rightarrow> bool" where
  "progress_inv s \<longleftrightarrow> 0 \<le> VerifiedProgress s \<and> VerifiedProgress s \<le> Downloaded s"

text \<open>The bytes that a sequence of reads delivers; a read of no bytes delivers none.\<close>

definition bytes_read :: "(int \<times> int) list \<Rightarrow> int" where
  "bytes_read rs = sum_list (map (\<lambda>(n, now). max 0 n) rs)"

text \<open>
  An environment in which every call succeeds, for use in examples: a response with status
  200 whose body arrives in three reads of 40, 50 and 10 bytes.
\<close>

definition env_ok :: env where
  "env_ok =
     \<lparr>linux = True, newRequest_err = None, do_result = Inr 200, create_err = None,
      fallocate_err = None, prealloc_truncate_err = None, start_clock = 0,
      body_reads = [(40, 1), (50, 2), (10, 3)], flush_clock = 4, copy_result = (100, None),
      ctx_err = None, truncate_err = None, sync_err = None, close_err = None,
      rename_err = None, copy_open_err = None, copy_create_err = None, copy_data_err = None,
      copy_sync_err = None\<rparr>"

section \<open>Lifecycle events and their SSE frames (package events)\<close>

text \<open>
  The message types, field by field. Field names carry the name of their message as a
  prefix, because several messages have fields of the same name. A \<open>float64\<close> is its 64
  bits; a \<open>time.Duration\<close> is an \<open>int64\<close>; a byte slice is a string; an \<open>error\<close> is \<open>nil\<close>
  or has a text (what \<open>Error()\<close> returns); the \<open>State\<close> of a started message is a pointer
  to a progress state or \<open>nil\<close>.
\<close>

datatype float64 = Float64 "64 word"

type_synonym bytes = string

record ProgressMsg =
  progress_DownloadID :: string
  progress_Downloaded :: int
  progress_Total :: int
  progress_Speed :: float64
  progress_Elapsed :: int
  progress_ActiveConnections :: int
  progress_ChunkBitmap :: bytes
  progress_BitmapWidth :: int
  progress_ActualChunkSize :: int
  progress_ChunkProgress :: "int list"

record DownloadCompleteMsg =
  complete_DownloadID :: string
  complete_Filename :: string
  complete_Elapsed :: int
  complete_Total :: int
  complete_AvgSpeed :: float64

record DownloadErrorMsg =
  error_DownloadID :: string
  error_Filename :: string
  error_Err :: "string option"

record DownloadStartedMsg =
  started_DownloadID :: string
  started_URL :: string
  started_Filename :: string
  started_Total :: int
  started_DestPath :: string
  started_State :: "ProgressState option"

record DownloadPausedMsg =
  paused_DownloadID :: string
  paused_Filename :: string
  paused_Downloaded :: int

record DownloadResumedMsg =
  resumed_DownloadID :: string
  resumed_Filename :: string

record DownloadQueuedMsg =
  queued_DownloadID :: string
  queued_Filename :: string
  queued_URL :: string
  queued_DestPath :: string

record DownloadRemovedMsg =
  removed_DownloadID :: string
  removed_Filename :: string

record SystemLogMsg =
  system_Message :: string

record DownloadRequestMsg =
  request_ID :: string
  request_URL :: string
  request_Filename :: string
  request_Path :: string
  request_Mirrors :: "string list"
  request_Headers :: "string \<rightharpoonup> string"

text \<open>
  A value of type \<open>interface{}\<close> as the functions of the package tell them apart by a type
  switch: one of the message types, a batch of progress messages, or anything else.
\<close>

datatype msg =
    MsgProgress ProgressMsg
  | MsgStarted DownloadStartedMsg
  | MsgComplete DownloadCompleteMsg
  | MsgError DownloadErrorMsg
  | MsgPaused DownloadPausedMsg
  | MsgResumed DownloadResumedMsg
  | MsgQueued DownloadQueuedMsg
  | MsgRemoved DownloadRemovedMsg
  | MsgRequest DownloadRequestMsg
  | MsgSystem SystemLogMsg
  | MsgBatchProgress "ProgressMsg list"
  | MsgOther

definition EventTypeProgress :: string where "EventTypeProgress = ''progress''"

definition EventTypeStarted :: string where "EventTypeStarted = ''started''"

definition EventTypeComplete :: string where "EventTypeComplete = ''complete''"

definition EventTypeError :: string where "EventTypeError = ''error''"

definition EventTypePaused :: string where "EventTypePaused = ''paused''"

definition EventTypeResumed :: string where "EventTypeResumed = ''resumed''"

definition EventTypeQueued :: string where "EventTypeQueued = ''queued''"

definition EventTypeRemoved :: string where "EventTypeRemoved = ''removed''"

definition EventTypeRequest :: string where "EventTypeRequest = ''request''"

definition EventTypeSystem :: string where "EventTypeSystem = ''system''"

record SSEMessage =
  Event :: string
  Data :: bytes

text \<open>The two structs local to the JSON methods of \<open>DownloadErrorMsg\<close>.\<close>

record encoded =
  encoded_DownloadID :: string
  encoded_Filename :: string
  encoded_Err :: string

record aux =
  aux_DownloadID :: string
  aux_Filename :: string
  aux_Err :: bytes

text \<open>
  The package \<open>encoding/json\<close> is not part of the repository. It is a parameter: a record
  with \<open>json.Marshal\<close> and \<open>json.Unmarshal\<close> at each of the types at which the package
  events calls them. \<open>Unmarshal_T J data\<close> is \<open>json.Unmarshal(data, &v)\<close> for a variable
  \<open>v\<close> of type \<open>T\<close> that holds the zero value, as all the callers have it; the result is the
  error or the value of \<open>v\<close> afterwards. \<open>Marshal_value\<close> is \<open>json.Marshal\<close> on the values
  for which \<open>EncodeSSEMessages\<close> does not call it.

  Two things are taken from the documentation of \<open>encoding/json\<close> and are not parameters:
  a field tagged \<open>json:"-"\<close> (\<open>DownloadStartedMsg.State\<close>) is neither written nor read, and
  for a type with methods \<open>MarshalJSON\<close> and \<open>UnmarshalJSON\<close> (\<open>DownloadErrorMsg\<close>) the
  methods are called, with the bytes of the JSON value.
\<close>

record encoding_json =
  Marshal_ProgressMsg :: "ProgressMsg \<Rightarrow> error + bytes"
  Marshal_DownloadStartedMsg :: "DownloadStartedMsg \<Rightarrow> error + bytes"
  Marshal_DownloadCompleteMsg :: "DownloadCompleteMsg \<Rightarrow> error + bytes"
  Marshal_DownloadPausedMsg :: "DownloadPausedMsg \<Rightarrow> error + bytes"
  Marshal_DownloadResumedMsg :: "DownloadResumedMsg \<Rightarrow> error + bytes"
  Marshal_DownloadQueuedMsg :: "DownloadQueuedMsg \<Rightarrow> error + bytes"
  Marshal_DownloadRemovedMsg :: "DownloadRemovedMsg \<Rightarrow> error + bytes"
  Marshal_DownloadRequestMsg :: "DownloadRequestMsg \<Rightarrow> error + bytes"
  Marshal_SystemLogMsg :: "SystemLogMsg \<Rightarrow> error + bytes"
  Marshal_encoded :: "encoded \<Rightarrow> error + bytes"
  Marshal_value :: "msg \<Rightarrow> error + bytes"
  Unmarshal_ProgressMsg :: "bytes \<Rightarrow> error + ProgressMsg"
  Unmarshal_DownloadStartedMsg :: "bytes \<Rightarrow> error + DownloadStartedMsg"
  Unmarshal_DownloadCompleteMsg :: "bytes \<Rightarrow> error + DownloadCompleteMsg"
  Unmarshal_DownloadPausedMsg :: "bytes \<Rightarrow> error + DownloadPausedMsg"
  Unmarshal_DownloadResumedMsg :: "bytes \<Rightarrow> error + DownloadResumedMsg"
  Unmarshal_DownloadQueuedMsg :: "bytes \<Rightarrow> error + DownloadQueuedMsg"
  Unmarshal_DownloadRemovedMsg :: "bytes \<Rightarrow> error + DownloadRemovedMsg"
  Unmarshal_DownloadRequestMsg :: "bytes \<Rightarrow> error + DownloadRequestMsg"
  Unmarshal_SystemLogMsg :: "bytes \<Rightarrow> error + SystemLogMsg"
  Unmarshal_aux :: "bytes \<Rightarrow> error + aux"
  Unmarshal_string :: "bytes \<Rightarrow> error + string"

text \<open>The methods \<open>MarshalJSON\<close> and \<open>UnmarshalJSON\<close> of \<open>DownloadErrorMsg\<close>.\<close>

definition MarshalJSON :: "encoding_json \<Rightarrow> DownloadErrorMsg \<Rightarrow> error + bytes" where
  "MarshalJSON J m =
     (let out = \<lparr>encoded_DownloadID = error_DownloadID m, encoded_Filename = error_Filename m,
                 encoded_Err = []\<rparr>;
          out = (case error_Err m of
                   None \<Rightarrow> out
                 | Some text \<Rightarrow> out\<lparr>encoded_Err := text\<rparr>)
      in Marshal_encoded J out)"

definition UnmarshalJSON :: "encoding_json \<Rightarrow> bytes \<Rightarrow> error + DownloadErrorMsg" where
  "UnmarshalJSON J data =
     (case Unmarshal_aux J data of
        Inl err \<Rightarrow> Inl err
      | Inr a \<Rightarrow>
          let m = \<lparr>error_DownloadID = aux_DownloadID a, error_Filename = aux_Filename a,
                   error_Err = None\<rparr>
          in if length (aux_Err a) = 0 then Inr m
             else
               (case Unmarshal_string J (aux_Err a) of
                  Inr errStr \<Rightarrow>
                    if errStr \<noteq> [] then Inr (m\<lparr>error_Err := Some errStr\<rparr>) else Inr m
                | Inl err \<Rightarrow>
                    let raw = aux_Err a
                    in if raw \<noteq> [] \<and> raw \<noteq> ''null''
                       then Inr (m\<lparr>error_Err := Some raw\<rparr>) else Inr m))"

text \<open>\<open>json.Marshal(msg)\<close> for a value of type \<open>interface{}\<close>, by its dynamic type.\<close>

fun json_Marshal :: "encoding_json \<Rightarrow> msg \<Rightarrow> error + bytes" where
  "json_Marshal J (MsgProgress m) = Marshal_ProgressMsg J m"
| "json_Marshal J (MsgStarted m) = Marshal_DownloadStartedMsg J (m\<lparr>started_State := None\<rparr>)"
| "json_Marshal J (MsgComplete m) = Marshal_DownloadCompleteMsg J m"
| "json_Marshal J (MsgError m) = MarshalJSON J m"
| "json_Marshal J (MsgPaused m) = Marshal_DownloadPausedMsg J m"
| "json_Marshal J (MsgResumed m) = Marshal_DownloadResumedMsg J m"
| "json_Marshal J (MsgQueued m) = Marshal_DownloadQueuedMsg J m"
| "json_Marshal J (MsgRemoved m) = Marshal_DownloadRemovedMsg J m"
| "json_Marshal J (MsgRequest m) = Marshal_DownloadRequestMsg J m"
| "json_Marshal J (MsgSystem m) = Marshal_SystemLogMsg J m"
| "json_Marshal J v = Marshal_value J v"

fun EventTypeForMessage :: "msg \<Rightarrow> string \<times> bool" where
  "EventTypeForMessage (MsgProgress m) = (EventTypeProgress, True)"
| "EventTypeForMessage (MsgStarted m) = (EventTypeStarted, True)"
| "EventTypeForMessage (MsgComplete m) = (EventTypeComplete, True)"
| "EventTypeForMessage (MsgError m) = (EventTypeError, True)"
| "EventTypeForMessage (MsgPaused m) = (EventTypePaused, True)"
| "EventTypeForMessage (MsgResumed m) = (EventTypeResumed, True)"
| "EventTypeForMessage (MsgQueued m) = (EventTypeQueued, True)"
| "EventTypeForMessage (MsgRemoved m) = (EventTypeRemoved, True)"
| "EventTypeForMessage (MsgRequest m) = (EventTypeRequest, True)"
| "EventTypeForMessage (MsgSystem m) = (EventTypeSystem, True)"
| "EventTypeForMessage v = ([], False)"

text \<open>
  The loop of \<open>EncodeSSEMessages\<close> over a batch: \<open>frames\<close> are the frames appended so far;
  the first progress message that fails to marshal ends the loop with its error.
\<close>

fun encode_batch ::
    "encoding_json \<Rightarrow> ProgressMsg list \<Rightarrow> SSEMessage list \<Rightarrow> error + SSEMessage list" where
  "encode_batch J [] frames = Inr frames"
| "encode_batch J (p # ps) frames =
     (case Marshal_ProgressMsg J p of
        Inl err \<Rightarrow> Inl err
      | Inr data \<Rightarrow> encode_batch J ps (frames @ [\<lparr>Event = EventTypeProgress, Data = data\<rparr>]))"

text \<open>\<open>EncodeSSEMessages\<close>; the result \<open>(nil, nil)\<close> is \<open>Inr []\<close>.\<close>

fun EncodeSSEMessages :: "encoding_json \<Rightarrow> msg \<Rightarrow> error + SSEMessage list" where
  "EncodeSSEMessages J (MsgBatchProgress m) = encode_batch J m []"
| "EncodeSSEMessages J v =
     (case EventTypeForMessage v of
        (eventType, ok) \<Rightarrow>
          if \<not> ok then Inr []
          else
            (case json_Marshal J v of
               Inl err \<Rightarrow> Inl err
             | Inr data \<Rightarrow> Inr [\<lparr>Event = eventType, Data = data\<rparr>]))"

text \<open>
  \<open>DecodeSSEMessage\<close>; the result is the triple that the function returns: the message
  or \<open>nil\<close>, whether the event type is known, and the error or \<open>nil\<close>.
\<close>

definition DecodeSSEMessage ::
    "encoding_json \<Rightarrow> string \<Rightarrow> bytes \<Rightarrow> msg option \<times> bool \<times> error option" where
  "DecodeSSEMessage J eventType data =
     (if eventType = EventTypeProgress
      then (case Unmarshal_ProgressMsg J data of
              Inl err \<Rightarrow> (None, True, Some err)
            | Inr m \<Rightarrow> (Some (MsgProgress m), True, None))
      else if eventType = EventTypeStarted
      then (case Unmarshal_DownloadStartedMsg J data of
              Inl err \<Rightarrow> (None, True, Some err)
            | Inr m \<Rightarrow> (Some (MsgStarted (m\<lparr>started_State := None\<rparr>)), True, None))
      else if eventType = EventTypeComplete
      then (case Unmarshal_DownloadCompleteMsg J data of
              Inl err \<Rightarrow> (None, True, Some err)
            | Inr m \<Rightarrow> (Some (MsgComplete m), True, None))
      else if eventType = EventTypeError
      then (case UnmarshalJSON J data of
              Inl err \<Rightarrow> (None, True, Some err)
            | Inr m \<Rightarrow> (Some (MsgError m), True, None))
      else if eventType = EventTypePaused
      then (case Unmarshal_DownloadPausedMsg J data of
              Inl err \<Rightarrow> (None, True, Some err)
            | Inr m \<Rightarrow> (Some (MsgPaused m), True, None))
      else if eventType = EventTypeResumed
      then (case Unmarshal_DownloadResumedMsg J data of
              Inl err \<Rightarrow> (None, True, Some err)
            | Inr m \<Rightarrow> (Some (MsgResumed m), True, None))
      else if eventType = EventTypeQueued
      then (case Unmarshal_DownloadQueuedMsg J data of
              Inl err \<Rightarrow> (None, True, Some err)
            | Inr m \<Rightarrow> (Some (MsgQueued m), True, None))
      else if eventType = EventTypeRemoved
      then (case Unmarshal_DownloadRemovedMsg J data of
              Inl err \<Rightarrow> (None, True, Some err)
            | Inr m \<Rightarrow> (Some (MsgRemoved m), True, None))
      else if eventType = EventTypeRequest
      then (case Unmarshal_DownloadRequestMsg J data of
              Inl err \<Rightarrow> (None, True, Some err)
            | Inr m \<Rightarrow> (Some (MsgRequest m), True, None))
      else if eventType = EventTypeSystem
      then (case Unmarshal_SystemLogMsg J data of
              Inl err \<Rightarrow> (None, True, Some err)
            | Inr m \<Rightarrow> (Some (MsgSystem m), True, None))
      else (None, False, None))"

text \<open>
  The names of the lifecycle events as the spec lists them (with \<open>request\<close> and \<open>system\<close>,
  which the package adds), by message type.
\<close>

fun spec_event_name :: "msg \<Rightarrow> string option" where
  "spec_event_name (MsgProgress m) = Some ''progress''"
| "spec_event_name (MsgStarted m) = Some ''started''"
| "spec_event_name (MsgComplete m) = Some ''complete''"
| "spec_event_name (MsgError m) = Some ''error''"
| "spec_event_name (MsgPaused m) = Some ''paused''"
| "spec_event_name (MsgResumed m) = Some ''resumed''"
| "spec_event_name (MsgQueued m) = Some ''queued''"
| "spec_event_name (MsgRemoved m) = Some ''removed''"
| "spec_event_name (MsgRequest m) = Some ''request''"
| "spec_event_name (MsgSystem m) = Some ''system''"
| "spec_event_name v = None"

text \<open>
  A message as its frame transmits it: a started message without its \<open>State\<close> pointer, an
  error message with an error of empty text as no error, every other message as it is.
\<close>

fun transmitted :: "msg \<Rightarrow> msg" where
  "transmitted (MsgStarted m) = MsgStarted (m\<lparr>started_State := None\<rparr>)"
| "transmitted (MsgError m) =
     MsgError (m\<lparr>error_Err := (if error_Err m = Some [] then None else error_Err m)\<rparr>)"
| "transmitted v = v"

text \<open>
  What a round trip needs from \<open>encoding/json\<close> for one lifecycle message: it marshals the
  fields it is given and unmarshals the same fields from the result. For an error message
  these are the fields of the struct \<open>encoded\<close>, read back into the struct \<open>aux\<close>: an empty
  \<open>Err\<close> is tagged \<open>omitempty\<close> and leaves \<open>aux.Err\<close> empty; any other \<open>Err\<close> arrives in
  \<open>aux.Err\<close> as the bytes of a JSON string that unmarshal to the text.
\<close>

fun json_carries :: "encoding_json \<Rightarrow> msg \<Rightarrow> bool" where
  "json_carries J (MsgProgress m) =
     (case Marshal_ProgressMsg J m of
        Inl err \<Rightarrow> False | Inr data \<Rightarrow> Unmarshal_ProgressMsg J data = Inr m)"
| "json_carries J (MsgStarted m) =
     (case Marshal_DownloadStartedMsg J (m\<lparr>started_State := None\<rparr>) of
        Inl err \<Rightarrow> False
      | Inr data \<Rightarrow> Unmarshal_DownloadStartedMsg J data = Inr (m\<lparr>started_State := None\<rparr>))"
| "json_carries J (MsgComplete m) =
     (case Marshal_DownloadCompleteMsg J m of
        Inl err \<Rightarrow> False | Inr data \<Rightarrow> Unmarshal_DownloadCompleteMsg J data = Inr m)"
| "json_carries J (MsgError m) =
     (let text = (case error_Err m of None \<Rightarrow> [] | Some t \<Rightarrow> t)
      in case Marshal_encoded J
                \<lparr>encoded_DownloadID = error_DownloadID m, encoded_Filename = error_Filename m,
                 encoded_Err = text\<rparr> of
           Inl err \<Rightarrow> False
         | Inr data \<Rightarrow>
             (case Unmarshal_aux J data of
                Inl err \<Rightarrow> False
              | Inr a \<Rightarrow>
                  aux_DownloadID a = error_DownloadID m \<and> aux_Filename a = error_Filename m \<and>
                  (if text = [] then aux_Err a = []
                   else aux_Err a \<noteq> [] \<and> Unmarshal_string J (aux_Err a) = Inr text)))"
| "json_carries J (MsgPaused m) =
     (case Marshal_DownloadPausedMsg J m of
        Inl err \<Rightarrow> False | Inr data \<Rightarrow> Unmarshal_DownloadPausedMsg J data = Inr m)"
| "json_carries J (MsgResumed m) =
     (case Marshal_DownloadResumedMsg J m of
        Inl err \<Rightarrow> False | Inr data \<Rightarrow> Unmarshal_DownloadResumedMsg J data = Inr m)"
| "json_carries J (MsgQueued m) =
     (case Marshal_DownloadQueuedMsg J m of
        Inl err \<Rightarrow> False | Inr data \<Rightarrow> Unmarshal_DownloadQueuedMsg J data = Inr m)"
| "json_carries J (MsgRemoved m) =
     (case Marshal_DownloadRemovedMsg J m of
        Inl err \<Rightarrow> False | Inr data \<Rightarrow> Unmarshal_DownloadRemovedMsg J data = Inr m)"
| "json_carries J (MsgRequest m) =
     (case Marshal_DownloadRequestMsg J m of
        Inl err \<Rightarrow> False | Inr data \<Rightarrow> Unmarshal_DownloadRequestMsg J data = Inr m)"
| "json_carries J (MsgSystem m) =
     (case Marshal_SystemLogMsg J m of
        Inl err \<Rightarrow> False | Inr data \<Rightarrow> Unmarshal_SystemLogMsg J data = Inr m)"
| "json_carries J v = False"

text \<open>
  Examples. A started message, without and with a progress state; the error message of
  the test \<open>TestEncodeDecodeSSEMessage_RoundTrip\<close>; a progress message whose speed is not
  a number (the bits of a quiet NaN).
\<close>

definition started_example :: DownloadStartedMsg where
  "started_example =
     \<lparr>started_DownloadID = ''dl-1'', started_URL = ''http://h/f'', started_Filename = ''f'',
      started_Total = 100, started_DestPath = ''/d/f'', started_State = None\<rparr>"

definition started_with_state :: DownloadStartedMsg where
  "started_with_state =
     started_example\<lparr>started_State := Some \<lparr>Downloaded = 0, VerifiedProgress = 0\<rparr>\<rparr>"

definition error_example :: DownloadErrorMsg where
  "error_example =
     \<lparr>error_DownloadID = ''dl-1'', error_Filename = ''file.bin'', error_Err = Some ''boom''\<rparr>"

definition progress_nan :: ProgressMsg where
  "progress_nan =
     \<lparr>progress_DownloadID = ''dl-1'', progress_Downloaded = 1, progress_Total = 10,
      progress_Speed = Float64 0x7FF8000000000000, progress_Elapsed = 0,
      progress_ActiveConnections = 1, progress_ChunkBitmap = [], progress_BitmapWidth = 0,
      progress_ActualChunkSize = 0, progress_ChunkProgress = []\<rparr>"

text \<open>
  An excerpt of \<open>encoding/json\<close>: what it returns on the values of the examples. The error
  \<open>no_entry\<close> stands for a value that the excerpt does not list.
\<close>

definition no_entry :: error where
  "no_entry = External ''not in the excerpt''"

definition started_json :: bytes where
  \<open>started_json =
     ''{"DownloadID":"dl-1","URL":"http://h/f","Filename":"f","Total":100,"DestPath":"/d/f"}''\<close>

definition error_json :: bytes where
  \<open>error_json = ''{"DownloadID":"dl-1","Filename":"file.bin","Err":"boom"}''\<close>

definition boom_json :: bytes where
  \<open>boom_json = ''"boom"''\<close>

definition json_excerpt :: encoding_json where
  "json_excerpt =
     \<lparr>Marshal_ProgressMsg =
        (\<lambda>v. if v = progress_nan then Inl (External ''json: unsupported value: NaN'')
             else Inl no_entry),
      Marshal_DownloadStartedMsg = (\<lambda>v. if v = started_example then Inr started_json else Inl no_entry),
      Marshal_DownloadCompleteMsg = (\<lambda>v. Inl no_entry),
      Marshal_DownloadPausedMsg = (\<lambda>v. Inl no_entry),
      Marshal_DownloadResumedMsg = (\<lambda>v. Inl no_entry),
      Marshal_DownloadQueuedMsg = (\<lambda>v. Inl no_entry),
      Marshal_DownloadRemovedMsg = (\<lambda>v. Inl no_entry),
      Marshal_DownloadRequestMsg = (\<lambda>v. Inl no_entry),
      Marshal_SystemLogMsg = (\<lambda>v. Inl no_entry),
      Marshal_encoded =
        (\<lambda>v. if v = \<lparr>encoded_DownloadID = ''dl-1'', encoded_Filename = ''file.bin'',
                      encoded_Err = ''boom''\<rparr>
             then Inr error_json else Inl no_entry),
      Marshal_value = (\<lambda>v. Inl no_entry),
      Unmarshal_ProgressMsg = (\<lambda>data. Inl no_entry),
      Unmarshal_DownloadStartedMsg =
        (\<lambda>data. if data = started_json then Inr started_example else Inl no_entry),
      Unmarshal_DownloadCompleteMsg = (\<lambda>data. Inl no_entry),
      Unmarshal_DownloadPausedMsg = (\<lambda>data. Inl no_entry),
      Unmarshal_DownloadResumedMsg = (\<lambda>data. Inl no_entry),
      Unmarshal_DownloadQueuedMsg = (\<lambda>data. Inl no_entry),
      Unmarshal_DownloadRemovedMsg = (\<lambda>data. Inl no_entry),
      Unmarshal_DownloadRequestMsg = (\<lambda>data. Inl no_entry),
      Unmarshal_SystemLogMsg = (\<lambda>data. Inl no_entry),
      Unmarshal_aux =
        (\<lambda>data. if data = error_json
                then Inr \<lparr>aux_DownloadID = ''dl-1'', aux_Filename = ''file.bin'',
                          aux_Err = boom_json\<rparr>
                else Inl no_entry),
      Unmarshal_string = (\<lambda>data. if data = boom_json then Inr ''boom'' else Inl no_entry)\<rparr>"

section \<open>Properties of the task queue\<close>

subsection \<open>Signals issued by a push\<close>

lemma signal_loop_log:
  "cond_log (signal_loop i m q) = cond_log q @ replicate (nat (m - i)) Signal"
proof (induction i m q rule: signal_loop.induct)
  case (1 i m q)
  show ?case
  proof (cases "i < m")
    case True
    then have "nat (m - i) = Suc (nat (m - (i + 1)))" by simp
    with True "1.IH" show ?thesis
      by (subst signal_loop.simps) (simp add: replicate_app_Cons_same)
  next
    case False
    then show ?thesis by (subst signal_loop.simps) simp
  qed
qed

lemma signal_loop_frame:
  "tasks (signal_loop i m q) = tasks q \<and> head (signal_loop i m q) = head q \<and>
   done_flag (signal_loop i m q) = done_flag q \<and> size_ctr (signal_loop i m q) = size_ctr q \<and>
   waiting (signal_loop i m q) = waiting q \<and> idleWorkers (signal_loop i m q) = idleWorkers q"
proof (induction i m q rule: signal_loop.induct)
  case (1 i m q)
  show ?case
  proof (cases "i < m")
    case True
    with "1.IH" show ?thesis by (subst (1 2 3 4 5 6) signal_loop.simps) simp
  next
    case False
    then show ?thesis by (subst (1 2 3 4 5 6) signal_loop.simps) simp
  qed
qed

lemma signal_frame:
  "tasks (signalWaitingWorkersLocked n q) = tasks q"
  "head (signalWaitingWorkersLocked n q) = head q"
  "done_flag (signalWaitingWorkersLocked n q) = done_flag q"
  "size_ctr (signalWaitingWorkersLocked n q) = size_ctr q"
  "waiting (signalWaitingWorkersLocked n q) = waiting q"
  "idleWorkers (signalWaitingWorkersLocked n q) = idleWorkers q"
  by (simp_all add: signalWaitingWorkersLocked_def signal_loop_frame)

lemma signal_log:
  "cond_log (signalWaitingWorkersLocked n q) =
     cond_log q @ replicate (nat (min n (waiting q))) Signal"
  by (simp add: signalWaitingWorkersLocked_def signal_loop_log min_def)

subsection \<open>The queue as a list of pending tasks\<close>

lemma pending_inv_signal:
  "pending_tasks (signalWaitingWorkersLocked n q) = pending_tasks q"
  "queue_inv (signalWaitingWorkersLocked n q) = queue_inv q"
  by (simp_all add: pending_tasks_def queue_inv_def signal_frame)

lemma Push_pending:
  "queue_inv q \<Longrightarrow> pending_tasks (Push t q) = pending_tasks q @ [t]"
  by (simp add: Push_def pending_inv_signal) (simp add: pending_tasks_def queue_inv_def)

lemma Push_inv: "queue_inv q \<Longrightarrow> queue_inv (Push t q)"
  by (simp add: Push_def pending_inv_signal) (simp add: queue_inv_def)

lemma Push_done: "done_flag (Push t q) = done_flag q"
  by (simp add: Push_def signal_frame)

lemma PushMultiple_pending:
  "queue_inv q \<Longrightarrow> pending_tasks (PushMultiple ts q) = pending_tasks q @ ts"
  by (simp add: PushMultiple_def pending_inv_signal) (simp add: pending_tasks_def queue_inv_def)

lemma PushMultiple_inv: "queue_inv q \<Longrightarrow> queue_inv (PushMultiple ts q)"
  by (simp add: PushMultiple_def pending_inv_signal) (simp add: queue_inv_def)

lemma PushMultiple_done: "done_flag (PushMultiple ts q) = done_flag q"
  by (simp add: PushMultiple_def signal_frame)

lemma Pop_some:
  assumes "queue_inv q" and "pending_tasks q \<noteq> []"
  shows "\<exists>q'. Pop q = Returns (Some (hd (pending_tasks q))) q' \<and> pending_tasks q' = tl (pending_tasks q) \<and>
              queue_inv q' \<and> done_flag q' = done_flag q"
proof -
  from assms have lt: "head q < length (tasks q)"
    by (simp add: pending_tasks_def queue_inv_def)
  then have hd: "hd (drop (head q) (tasks q)) = tasks q ! head q"
    by (simp add: hd_drop_conv_nth)
  have tl: "tl (drop (head q) (tasks q)) = drop (Suc (head q)) (tasks q)"
    by (simp add: drop_Suc tl_drop)
  from assms(1) lt show ?thesis
    by (auto simp: Pop_def Let_def hd tl pending_tasks_def queue_inv_def)
qed

lemma Pop_closed_empty:
  "pending_tasks q = [] \<Longrightarrow> queue_inv q \<Longrightarrow> done_flag q \<Longrightarrow> Pop q = Returns None q"
  by (simp add: Pop_def pending_tasks_def queue_inv_def)

lemma Pop_open_empty:
  "pending_tasks q = [] \<Longrightarrow> queue_inv q \<Longrightarrow> \<not> done_flag q \<Longrightarrow>
   Pop q = Waits (q\<lparr>idleWorkers := idleWorkers q + 1, waiting := waiting q + 1\<rparr>)"
  by (simp add: Pop_def pending_tasks_def queue_inv_def)

lemma pop_n_pending:
  "queue_inv q \<Longrightarrow> k \<le> length (pending_tasks q) \<Longrightarrow>
   \<exists>q'. pop_n k q = Returns (map Some (take k (pending_tasks q))) q' \<and>
        pending_tasks q' = drop k (pending_tasks q) \<and> queue_inv q' \<and> done_flag q' = done_flag q"
proof (induction k arbitrary: q)
  case 0
  then show ?case by simp
next
  case (Suc k)
  then have ne: "pending_tasks q \<noteq> []" by auto
  with Suc.prems obtain q1 where
    q1: "Pop q = Returns (Some (hd (pending_tasks q))) q1" "pending_tasks q1 = tl (pending_tasks q)"
        "queue_inv q1" "done_flag q1 = done_flag q"
    using Pop_some by blast
  from Suc.prems q1(2) have "k \<le> length (pending_tasks q1)" by simp
  with Suc.IH q1(3) obtain q2 where
    q2: "pop_n k q1 = Returns (map Some (take k (pending_tasks q1))) q2"
        "pending_tasks q2 = drop k (pending_tasks q1)" "queue_inv q2" "done_flag q2 = done_flag q1"
    by blast
  from ne have "take (Suc k) (pending_tasks q) = hd (pending_tasks q) # take k (tl (pending_tasks q))"
    by (cases "pending_tasks q") simp_all
  with q1 q2 show ?case
    by (simp add: drop_Suc)
qed

lemma run_pushes_pending:
  "queue_inv q \<Longrightarrow>
   pending_tasks (run_pushes cs q) = pending_tasks q @ pushed cs \<and> queue_inv (run_pushes cs q) \<and>
   done_flag (run_pushes cs q) = done_flag q"
proof (induction cs arbitrary: q)
  case Nil
  then show ?case by simp
next
  case (Cons c cs)
  then show ?case
    by (cases c)
      (simp_all add: Push_pending Push_inv Push_done PushMultiple_pending PushMultiple_inv
        PushMultiple_done)
qed

lemma NewTaskQueue_inv: "queue_inv NewTaskQueue"
  by (simp add: queue_inv_def NewTaskQueue_def)

lemma Close_inv: "queue_inv (Close q) = queue_inv q"
  by (simp add: queue_inv_def Close_def)

lemma Close_pending: "pending_tasks (Close q) = pending_tasks q"
  by (simp add: pending_tasks_def Close_def)

lemma DrainRemaining_inv: "queue_inv q \<Longrightarrow> queue_inv (snd (DrainRemaining q))"
  by (simp add: queue_inv_def DrainRemaining_def)

lemma Pop_inv:
  assumes "queue_inv q"
  shows "Pop q = Returns r q' \<Longrightarrow> queue_inv q'" and "Pop q = Waits q' \<Longrightarrow> queue_inv q'"
proof -
  show "Pop q = Returns r q' \<Longrightarrow> queue_inv q'"
  proof (cases "pending_tasks q = []")
    case True
    assume "Pop q = Returns r q'"
    with True assms show ?thesis
      by (cases "done_flag q") (auto simp: Pop_closed_empty Pop_open_empty)
  next
    case False
    assume "Pop q = Returns r q'"
    with Pop_some [OF assms False] show ?thesis by auto
  qed
  show "Pop q = Waits q' \<Longrightarrow> queue_inv q'"
    using assms by (auto simp: Pop_def Let_def queue_inv_def split: if_splits)
qed

lemma wake_inv:
  "queue_inv (q\<lparr>waiting := w, idleWorkers := i\<rparr>) = queue_inv q"
  by (simp add: queue_inv_def)

lemma reachable_inv: "reachable q \<Longrightarrow> queue_inv q"
proof (induction rule: reachable.induct)
  case r_new
  show ?case by (rule NewTaskQueue_inv)
next
  case (r_wake_returns q r q')
  then show ?case unfolding Pop_wake_def using Pop_inv(1) wake_inv by blast
next
  case (r_wake_waits q q')
  then show ?case unfolding Pop_wake_def using Pop_inv(2) wake_inv by blast
qed (auto simp: Push_inv PushMultiple_inv Close_inv DrainRemaining_inv dest: Pop_inv)

lemma reachable_run_pushes: "reachable q \<Longrightarrow> reachable (run_pushes cs q)"
proof (induction cs arbitrary: q)
  case Nil
  then show ?case by simp
next
  case (Cons c cs)
  then show ?case by (cases c) (simp_all add: r_push r_push_multiple)
qed

lemma fifo_general:
  assumes "queue_inv q" and "k \<le> length (pending_tasks q @ pushed cs)"
  shows "\<exists>q'. pop_n k (run_pushes cs q) = Returns (map Some (take k (pending_tasks q @ pushed cs))) q' \<and>
              pending_tasks q' = drop k (pending_tasks q @ pushed cs) \<and> queue_inv q' \<and>
              done_flag q' = done_flag q"
proof -
  from run_pushes_pending [OF assms(1), of cs]
  have p: "pending_tasks (run_pushes cs q) = pending_tasks q @ pushed cs"
    and i: "queue_inv (run_pushes cs q)"
    and d: "done_flag (run_pushes cs q) = done_flag q"
    by simp_all
  from assms(2) p have "k \<le> length (pending_tasks (run_pushes cs q))" by simp
  from pop_n_pending [OF i this] p d show ?thesis by simp
qed

lemma Pop_none_iff:
  assumes "queue_inv q"
  shows "(\<exists>q'. Pop q = Returns None q') \<longleftrightarrow> done_flag q \<and> pending_tasks q = []"
proof (cases "pending_tasks q = []")
  case True
  with assms show ?thesis
    by (cases "done_flag q") (simp_all add: Pop_closed_empty Pop_open_empty)
next
  case False
  with Pop_some [OF assms False] show ?thesis by auto
qed

text \<open>
  Claim C7. When \<open>n\<close> tasks are pushed while \<open>w\<close> workers wait on the condition variable,
  the push issues exactly \<open>min n w\<close> signals and never a broadcast: a call of
  \<open>signalWaitingWorkersLocked\<close> with \<open>maxSignals = n\<close> appends \<open>min n waiting\<close> calls of
  \<open>Signal\<close> to the log of the condition variable when both numbers are positive and nothing
  otherwise; \<open>Push\<close> is the case \<open>n = 1\<close> and \<open>PushMultiple\<close> the case \<open>n = len(tasks)\<close>.
\<close>

theorem push_signals_min_of_tasks_and_waiters:
  "cond_log (signalWaitingWorkersLocked n q) =
     cond_log q @ replicate (if 0 < n \<and> 0 < waiting q then nat (min n (waiting q)) else 0) Signal
   \<and> cond_log (Push t q) =
     cond_log q @ replicate (if 0 < waiting q then nat (min 1 (waiting q)) else 0) Signal
   \<and> cond_log (PushMultiple ts q) =
     cond_log q @
       replicate (if 0 < length ts \<and> 0 < waiting q then nat (min (int (length ts)) (waiting q)) else 0)
         Signal
   \<and> Broadcast \<notin> set (drop (length (cond_log q)) (cond_log (Push t q)))
   \<and> Broadcast \<notin> set (drop (length (cond_log q)) (cond_log (PushMultiple ts q)))"
proof -
  have s: "cond_log (signalWaitingWorkersLocked m r) =
      cond_log r @ replicate (if 0 < m \<and> 0 < waiting r then nat (min m (waiting r)) else 0) Signal"
    for m and r :: "'a TaskQueue"
    by (auto simp: signal_log min_def)
  have p: "cond_log (Push t q) =
      cond_log q @ replicate (if 0 < waiting q then nat (min 1 (waiting q)) else 0) Signal"
    by (simp add: Push_def s)
  have m: "cond_log (PushMultiple ts q) =
      cond_log q @
        replicate (if 0 < length ts \<and> 0 < waiting q then nat (min (int (length ts)) (waiting q)) else 0)
          Signal"
    by (simp add: PushMultiple_def s)
  have "Broadcast \<notin> set (drop (length (cond_log q)) (cond_log (Push t q)))"
    by (subst p) simp
  moreover have "Broadcast \<notin> set (drop (length (cond_log q)) (cond_log (PushMultiple ts q)))"
    by (subst m) simp
  ultimately show ?thesis using s p m by blast
qed

theorem push_signals_min_of_tasks_and_waiters_witness:
  "cond_log (PushMultiple [10, 20, 30 :: nat] (NewTaskQueue\<lparr>waiting := 2\<rparr>)) = [Signal, Signal]
   \<and> cond_log (PushMultiple [10 :: nat] (NewTaskQueue\<lparr>waiting := 2\<rparr>)) = [Signal]
   \<and> cond_log (Push (10 :: nat) (NewTaskQueue\<lparr>waiting := 0\<rparr>)) = []"
  using push_signals_min_of_tasks_and_waiters
          [of 1 "NewTaskQueue\<lparr>waiting := 2\<rparr>" "10 :: nat" "[10, 20, 30]"]
        push_signals_min_of_tasks_and_waiters
          [of 1 "NewTaskQueue\<lparr>waiting := 2\<rparr>" "10 :: nat" "[10]"]
        push_signals_min_of_tasks_and_waiters
          [of 1 "NewTaskQueue\<lparr>waiting := 0\<rparr>" "10 :: nat" "[]"]
  by (simp add: NewTaskQueue_def numeral_2_eq_2)

text \<open>
  Claim C2. The queue is first in, first out. After any sequence of calls of \<open>Push\<close> and
  \<open>PushMultiple\<close> on a queue in use, \<open>k\<close> sequential calls of \<open>Pop\<close> (for \<open>k\<close> up to the number
  of pending tasks) all return a task, and the tasks returned are, in this order, the first
  \<open>k\<close> of: the tasks that were pending before, then the pushed tasks in the order of the
  pushes. The tasks handed out are no longer pending, so none is returned twice; once all
  are handed out, \<open>Pop\<close> returns no further task. For a new queue nothing is pending before
  the pushes.
\<close>

theorem queue_is_fifo:
  assumes "reachable q" and "k \<le> length (pending_tasks q @ pushed cs)"
  shows "\<exists>q'. pop_n k (run_pushes cs q) = Returns (map Some (take k (pending_tasks q @ pushed cs))) q' \<and>
              pending_tasks q' = drop k (pending_tasks q @ pushed cs) \<and>
              (if k = length (pending_tasks q @ pushed cs)
               then \<forall>t q''. Pop q' \<noteq> Returns (Some t) q'' else pending_tasks q' \<noteq> [])"
proof -
  from assms(1) have "queue_inv q" by (rule reachable_inv)
  from fifo_general [OF this assms(2)] obtain q' where
    q': "pop_n k (run_pushes cs q) = Returns (map Some (take k (pending_tasks q @ pushed cs))) q'"
        "pending_tasks q' = drop k (pending_tasks q @ pushed cs)" "queue_inv q'"
    by blast
  have "\<forall>t q''. Pop q' \<noteq> Returns (Some t) q''" if "k = length (pending_tasks q @ pushed cs)"
  proof -
    from that q'(2) have e: "pending_tasks q' = []" by simp
    show ?thesis
      using e q'(3) by (cases "done_flag q'") (simp_all add: Pop_closed_empty Pop_open_empty)
  qed
  moreover have "pending_tasks q' \<noteq> []" if "k \<noteq> length (pending_tasks q @ pushed cs)"
  proof -
    from q'(2) have "length (pending_tasks q') = length (pending_tasks q @ pushed cs) - k"
      by (simp only: length_drop)
    with that assms(2) have "0 < length (pending_tasks q')" by simp
    then show ?thesis by simp
  qed
  ultimately show ?thesis using q'(1,2) by auto
qed

theorem queue_is_fifo_witness:
  "reachable (NewTaskQueue :: nat TaskQueue)
   \<and> (3 :: nat) \<le> length (pending_tasks (NewTaskQueue :: nat TaskQueue)
                           @ pushed [PushCall 7, PushMultipleCall [5, 9], PushCall 7])
   \<and> (\<exists>q'. pop_n 3 (run_pushes [PushCall 7, PushMultipleCall [5, 9], PushCall 7]
                      (NewTaskQueue :: nat TaskQueue))
            = Returns [Some 7, Some 5, Some 9] q' \<and> pending_tasks q' = [7])"
proof -
  have r: "reachable (NewTaskQueue :: nat TaskQueue)"
    by (rule r_new)
  have k: "(3 :: nat) \<le> length (pending_tasks (NewTaskQueue :: nat TaskQueue)
                           @ pushed [PushCall 7, PushMultipleCall [5, 9], PushCall 7])"
    by simp
  from queue_is_fifo [OF r k] r k show ?thesis
    by (simp add: pending_tasks_def NewTaskQueue_def) blast
qed

text \<open>
  Claim C3. In every state of a queue in use, \<open>DrainRemaining\<close> returns exactly the pending
  tasks, in queue order, and does not close the queue: afterwards \<open>Len\<close> is 0, nothing is
  pending, the done flag is as before and no call was made on the condition variable; the
  queue is still in use, and tasks pushed afterwards are popped in the order of the pushes.
  When nothing is pending the result is empty.
\<close>

theorem drain_remaining_returns_pending:
  assumes "reachable q"
  shows "fst (DrainRemaining q) = pending_tasks q
       \<and> (if pending_tasks q = [] then fst (DrainRemaining q) = [] else fst (DrainRemaining q) \<noteq> [])
       \<and> Len (snd (DrainRemaining q)) = 0
       \<and> pending_tasks (snd (DrainRemaining q)) = []
       \<and> done_flag (snd (DrainRemaining q)) = done_flag q
       \<and> cond_log (snd (DrainRemaining q)) = cond_log q
       \<and> reachable (snd (DrainRemaining q))
       \<and> (\<exists>q'. pop_n (length (pushed cs)) (run_pushes cs (snd (DrainRemaining q)))
                 = Returns (map Some (pushed cs)) q')"
proof -
  from assms have i: "queue_inv q" by (rule reachable_inv)
  let ?d = "snd (DrainRemaining q)"
  have r: "fst (DrainRemaining q) = pending_tasks q"
    by (simp add: DrainRemaining_def pending_tasks_def)
  have l: "Len ?d = 0"
    using i by (auto simp: DrainRemaining_def Len_def queue_inv_def)
  have p: "pending_tasks ?d = []"
    by (simp add: DrainRemaining_def pending_tasks_def)
  have d: "done_flag ?d = done_flag q" "cond_log ?d = cond_log q"
    by (simp_all add: DrainRemaining_def)
  have re: "reachable ?d"
    using assms by (rule r_drain)
  then have "queue_inv ?d" by (rule reachable_inv)
  from fifo_general [OF this, of "length (pushed cs)" cs] p
  have "\<exists>q'. pop_n (length (pushed cs)) (run_pushes cs ?d) = Returns (map Some (pushed cs)) q'"
    by auto
  with r l p d re show ?thesis by simp
qed

theorem drain_remaining_returns_pending_witness:
  "reachable (Close (Push (4 :: nat) (Push 3 NewTaskQueue)))
   \<and> DrainRemaining (Close (Push (4 :: nat) (Push 3 NewTaskQueue)))
       = ([3, 4], \<lparr>tasks = [], head = 0, done_flag = True, idleWorkers = 0, waiting = 0,
                   size_ctr = 0, cond_log = [Broadcast]\<rparr>)
   \<and> (\<exists>q'. pop_n 2 (run_pushes [PushMultipleCall [8, 6]]
               (snd (DrainRemaining (Close (Push (4 :: nat) (Push 3 NewTaskQueue))))))
            = Returns [Some 8, Some 6] q')"
proof -
  have r: "reachable (Close (Push (4 :: nat) (Push 3 NewTaskQueue)))"
    by (intro r_close r_push r_new)
  have e: "DrainRemaining (Close (Push (4 :: nat) (Push 3 NewTaskQueue)))
       = ([3, 4], \<lparr>tasks = [], head = 0, done_flag = True, idleWorkers = 0, waiting = 0,
                   size_ctr = 0, cond_log = [Broadcast]\<rparr>)"
    by (simp add: DrainRemaining_def Close_def Push_def signalWaitingWorkersLocked_def
        NewTaskQueue_def)
  from drain_remaining_returns_pending [OF r, of "[PushMultipleCall [8, 6]]"]
  have x: "\<exists>q'. pop_n 2 (run_pushes [PushMultipleCall [8, 6]]
               (snd (DrainRemaining (Close (Push (4 :: nat) (Push 3 NewTaskQueue))))))
            = Returns [Some 8, Some 6] q'"
    by (simp add: numeral_2_eq_2 del: pop_n.simps run_pushes.simps)
  from r e x show ?thesis by (intro conjI)
qed

text \<open>
  Claim C9. In every state of a queue in use, \<open>Pop\<close> returns the closed indication
  (\<open>ok = false\<close>, here \<open>None\<close>) if and only if the queue has been closed and no task is
  pending. Closing a queue that still holds tasks does not lose them: the next calls of
  \<open>Pop\<close> return the pending tasks in order, and only the call after the last of them
  reports closed.
\<close>

theorem pop_reports_closed_iff_done_and_empty:
  assumes "reachable q"
  shows "((\<exists>q'. Pop q = Returns None q') \<longleftrightarrow> done_flag q \<and> pending_tasks q = [])
       \<and> (\<exists>q'. pop_n (length (pending_tasks q)) (Close q) = Returns (map Some (pending_tasks q)) q' \<and>
                Pop q' = Returns None q')"
proof -
  from assms have i: "queue_inv q" by (rule reachable_inv)
  then have "queue_inv (Close q)" by (simp add: Close_inv)
  from pop_n_pending [OF this, of "length (pending_tasks q)"] obtain q' where
    q': "pop_n (length (pending_tasks q)) (Close q) = Returns (map Some (pending_tasks q)) q'"
        "pending_tasks q' = []" "queue_inv q'" "done_flag q' = done_flag (Close q)"
    by (auto simp: Close_pending)
  from q'(4) have "done_flag q'" by (simp add: Close_def)
  with q'(2,3) have "Pop q' = Returns None q'" by (simp add: Pop_closed_empty)
  with q'(1) Pop_none_iff [OF i] show ?thesis by blast
qed

theorem pop_reports_closed_iff_done_and_empty_witness:
  "reachable (Push (4 :: nat) (Push 3 NewTaskQueue))
   \<and> (\<exists>q'. pop_n 2 (Close (Push (4 :: nat) (Push 3 NewTaskQueue))) = Returns [Some 3, Some 4] q'
           \<and> Pop q' = Returns None q')
   \<and> \<not> (\<exists>q'. Pop (Close (Push (4 :: nat) (Push 3 NewTaskQueue))) = Returns None q')"
proof -
  have r: "reachable (Push (4 :: nat) (Push 3 NewTaskQueue))"
    by (intro r_push r_new)
  then have c: "reachable (Close (Push (4 :: nat) (Push 3 NewTaskQueue)))"
    by (rule r_close)
  have p: "pending_tasks (Push (4 :: nat) (Push 3 NewTaskQueue)) = [3, 4]"
    by (simp add: pending_tasks_def Push_def signalWaitingWorkersLocked_def NewTaskQueue_def)
  from pop_reports_closed_iff_done_and_empty [OF r] pop_reports_closed_iff_done_and_empty [OF c]
    r p
  show ?thesis by (simp add: Close_pending numeral_2_eq_2)
qed

lemma Pop_head_bound:
  assumes "Pop q = Returns r q'" and "2 * head q \<le> length (tasks q)"
  shows "2 * head q' \<le> length (tasks q')"
  using assms by (auto simp: Pop_def Let_def split: if_splits)

lemma Pop_waits_frame:
  "Pop q = Waits q' \<Longrightarrow> tasks q' = tasks q \<and> head q' = head q"
  by (auto simp: Pop_def Let_def split: if_splits)

lemma reachable_head_bound: "reachable q \<Longrightarrow> 2 * head q \<le> length (tasks q)"
proof (induction rule: reachable.induct)
  case r_new
  show ?case by (simp add: NewTaskQueue_def)
next
  case (r_push q t)
  then show ?case by (simp add: Push_def signal_frame)
next
  case (r_push_multiple q ts)
  then show ?case by (simp add: PushMultiple_def signal_frame)
next
  case (r_pop_returns q r q')
  then show ?case using Pop_head_bound by blast
next
  case (r_pop_waits q q')
  then show ?case using Pop_waits_frame by metis
next
  case (r_wake_returns q r q')
  from r_wake_returns.hyps(2) have
    "Pop (q\<lparr>waiting := waiting q - 1, idleWorkers := idleWorkers q - 1\<rparr>) = Returns r q'"
    by (simp add: Pop_wake_def)
  from Pop_head_bound [OF this] r_wake_returns.IH show ?case by simp
next
  case (r_wake_waits q q')
  from Pop_waits_frame [OF r_wake_waits.hyps(2) [unfolded Pop_wake_def]] r_wake_waits.IH
  show ?case by simp
next
  case (r_close q)
  then show ?case by (simp add: Close_def)
next
  case (r_drain q)
  then show ?case by (simp add: DrainRemaining_def)
qed

text \<open>
  The invariants of a queue in use. In every state that the methods produce from a new
  queue, \<open>Len\<close> is the number of pending tasks, the consumed prefix of the slice is at most
  half of it (a pop that would leave more behind cuts the prefix off), and \<open>Pop\<close> does not
  index the slice out of range.
\<close>

theorem queue_in_use_keeps_invariants:
  assumes "reachable q"
  shows "Len q = int (length (pending_tasks q)) \<and> head q \<le> length (tasks q) div 2 \<and>
         Pop q \<noteq> Panics"
proof -
  from assms have i: "queue_inv q" by (rule reachable_inv)
  then have "Len q = int (length (pending_tasks q))"
    by (auto simp: queue_inv_def Len_def pending_tasks_def)
  moreover from reachable_head_bound [OF assms] have "head q \<le> length (tasks q) div 2"
    by simp
  moreover from i have "Pop q \<noteq> Panics"
    by (auto simp: Pop_def Let_def queue_inv_def)
  ultimately show ?thesis by (intro conjI)
qed

theorem queue_in_use_keeps_invariants_witness:
  "(\<exists>q'. Pop (PushMultiple [1, 2, 3 :: nat] NewTaskQueue) = Returns (Some 1) q' \<and>
         reachable q' \<and> Len q' = 2 \<and> head q' = 1 \<and> tasks q' = [1, 2, 3] \<and> Pop q' \<noteq> Panics)"
proof -
  let ?q = "PushMultiple [1, 2, 3 :: nat] NewTaskQueue"
  let ?q' = "\<lparr>tasks = [1, 2, 3 :: nat], head = 1, done_flag = False, idleWorkers = 0,
             waiting = 0, size_ctr = 2, cond_log = []\<rparr>"
  have p: "Pop ?q = Returns (Some 1) ?q'"
    by (simp add: Pop_def PushMultiple_def signalWaitingWorkersLocked_def NewTaskQueue_def)
  have "reachable ?q" by (intro r_push_multiple r_new)
  then have r: "reachable ?q'" using p by (rule r_pop_returns)
  from queue_in_use_keeps_invariants [OF r] have "Pop ?q' \<noteq> Panics" by simp
  with p r show ?thesis by (simp add: Len_def)
qed

section \<open>Properties of the redirect policy\<close>

lemma range_assign_map_of:
  "distinct (map fst src) \<Longrightarrow> map_of (range_assign src dst) = map_of dst ++ map_of src"
proof (induction src arbitrary: dst)
  case Nil
  show ?case by simp
next
  case (Cons kv src)
  obtain key vals where kv: "kv = (key, vals)" by (cases kv)
  from Cons.prems kv have d: "distinct (map fst src)" and n: "map_of src key = None"
    by (auto simp: map_of_eq_None_iff)
  have "map_of (range_assign (kv # src) dst) = (map_of dst)(key \<mapsto> vals) ++ map_of src"
    using Cons.IH [OF d, of "AList.update key vals dst"]
    by (simp only: kv range_assign.simps update_conv')
  also have "\<dots> = map_of dst ++ map_of (kv # src)"
    using n by (auto simp: kv map_add_def fun_eq_iff split: option.splits)
  finally show ?case .
qed



section \<open>Properties of the single-connection fetcher\<close>

subsection \<open>The calls of a download\<close>

lemma Download_copy_success:
  assumes "ret (Download_copy T d e wp destPath fileSize preallocated) = None"
  shows "calls (Download_copy T d e wp destPath fileSize preallocated) =
           StreamBody wp #
           (if preallocated \<and> fst (copy_result e) \<noteq> fileSize
            then [FileTruncate wp (fst (copy_result e))] else []) @
           [FileSync wp, FileClose wp, OsRename wp destPath] @
           (if rename_err e = None then [] else snd (copyFile e wp destPath) @ [OsRemove wp])"
    and "rename_err e \<noteq> None \<Longrightarrow> fst (copyFile e wp destPath) = None"
  using assms
  by (auto simp: Download_copy_def Let_def split: option.splits prod.splits if_splits)

lemma Download_copy_cancelled:
  "snd (copy_result e) = Some err \<Longrightarrow> ctx_err e = Some ctxErr \<Longrightarrow>
   ret (Download_copy T d e wp destPath fileSize preallocated) = Some ctxErr"
  by (simp add: Download_copy_def Let_def)

lemma Download_copy_copy_error:
  "snd (copy_result e) = Some err \<Longrightarrow> ctx_err e = None \<Longrightarrow>
   ret (Download_copy T d e wp destPath fileSize preallocated) = Some (Wrapf ''copy error'' err)"
  by (simp add: Download_copy_def Let_def)

lemma Download_success_reaches_copy:
  assumes "ret (Download T d e rawurl destPath fileSize filename) = None"
  shows "newRequest_err e = None" and "do_result e = Inr 200" and "create_err e = None"
    and "0 < fileSize \<Longrightarrow> fst (preallocateFile e (destPath @ IncompleteSuffix) fileSize) = None"
    and "ret (Download_copy T d e (destPath @ IncompleteSuffix) destPath fileSize (0 < fileSize))
           = None"
  using assms
  by (auto simp: Download_def Download_response_def Let_def
           split: option.splits sum.splits prod.splits if_splits)

lemma Download_after_copy:
  assumes "newRequest_err e = None" and "do_result e = Inr 200" and "create_err e = None"
    and "0 < fileSize \<longrightarrow> fst (preallocateFile e (destPath @ IncompleteSuffix) fileSize) = None"
  shows "Download T d e rawurl destPath fileSize filename =
           (let wp = destPath @ IncompleteSuffix;
                r = Download_copy T d e wp destPath fileSize (0 < fileSize)
            in r\<lparr>calls :=
                   ClientDo rawurl # OsCreate wp #
                   (if 0 < fileSize then snd (preallocateFile e wp fileSize) else []) @
                   calls r @ FileClose wp # (if ret r \<noteq> None then [OsRemove wp] else []) @
                   [BodyClose, CloseIdleConnections]\<rparr>)"
  using assms
  by (auto simp: Download_def Download_response_def Let_def split: prod.splits)

text \<open>
  Claim C10. The fetcher accepts only status 200. For a response with any other status
  code, 206 among them, \<open>Download\<close> returns the error "unexpected status code" and has
  made no call that touches the file system: it asked the client for the response, and
  the deferred functions closed the body and the idle connections. A download that
  returns \<open>nil\<close> had a response with status 200.
\<close>

theorem other_status_fails_before_working_file:
  "(newRequest_err e = None \<and> do_result e = Inr StatusCode \<and> StatusCode \<noteq> 200 \<longrightarrow>
      ret (Download T d e rawurl destPath fileSize filename) = Some (UnexpectedStatus StatusCode) \<and>
      calls (Download T d e rawurl destPath fileSize filename)
        = [ClientDo rawurl, BodyClose, CloseIdleConnections] \<and>
      filter touches_filesystem (calls (Download T d e rawurl destPath fileSize filename)) = [] \<and>
      updates (Download T d e rawurl destPath fileSize filename) = [])
   \<and> (ret (Download T d e rawurl destPath fileSize filename) = None \<longrightarrow> do_result e = Inr 200)"
proof (intro conjI impI)
  assume "newRequest_err e = None \<and> do_result e = Inr StatusCode \<and> StatusCode \<noteq> 200"
  then have "Download T d e rawurl destPath fileSize filename =
      \<lparr>ret = Some (UnexpectedStatus StatusCode),
       calls = [ClientDo rawurl, BodyClose, CloseIdleConnections], updates = []\<rparr>"
    by (simp add: Download_def Download_response_def)
  then show
    "ret (Download T d e rawurl destPath fileSize filename) = Some (UnexpectedStatus StatusCode)"
    "calls (Download T d e rawurl destPath fileSize filename)
       = [ClientDo rawurl, BodyClose, CloseIdleConnections]"
    "filter touches_filesystem (calls (Download T d e rawurl destPath fileSize filename)) = []"
    "updates (Download T d e rawurl destPath fileSize filename) = []"
    by simp_all
next
  assume "ret (Download T d e rawurl destPath fileSize filename) = None"
  then show "do_result e = Inr 200" by (rule Download_success_reaches_copy)
qed

theorem other_status_fails_before_working_file_witness:
  "Download \<lparr>WorkerBatchSize = 64, WorkerBatchInterval = 10\<rparr>
     \<lparr>ID = ''id'', State = None, Headers = []\<rparr> (env_ok\<lparr>do_result := Inr 206\<rparr>)
     ''http://h/f'' ''/d/f'' 100 ''f''
   = \<lparr>ret = Some (UnexpectedStatus 206),
      calls = [ClientDo ''http://h/f'', BodyClose, CloseIdleConnections], updates = []\<rparr>
   \<and> do_result env_ok = Inr 200"
proof -
  let ?r = "Download \<lparr>WorkerBatchSize = 64, WorkerBatchInterval = 10\<rparr>
     \<lparr>ID = ''id'', State = None, Headers = []\<rparr> (env_ok\<lparr>do_result := Inr 206\<rparr>)
     ''http://h/f'' ''/d/f'' 100 ''f''"
  have h: "newRequest_err (env_ok\<lparr>do_result := Inr 206\<rparr>) = None \<and>
           do_result (env_ok\<lparr>do_result := Inr 206\<rparr>) = Inr 206 \<and> (206 :: int) \<noteq> 200"
    by (simp add: env_ok_def)
  from other_status_fails_before_working_file
         [of "env_ok\<lparr>do_result := Inr 206\<rparr>" 206 "\<lparr>WorkerBatchSize = 64, WorkerBatchInterval = 10\<rparr>"
             "\<lparr>ID = ''id'', State = None, Headers = []\<rparr>" "''http://h/f''" "''/d/f''" 100 "''f''"] h
  have "ret ?r = Some (UnexpectedStatus 206)"
    and "calls ?r = [ClientDo ''http://h/f'', BodyClose, CloseIdleConnections]"
    and "updates ?r = []"
    by blast+
  then have "?r = \<lparr>ret = Some (UnexpectedStatus 206),
      calls = [ClientDo ''http://h/f'', BodyClose, CloseIdleConnections], updates = []\<rparr>"
    by (cases ?r) simp
  moreover have "do_result env_ok = Inr 200" by (simp add: env_ok_def)
  ultimately show ?thesis by simp
qed



text \<open>
  Cleanup after the copy has started. A download that fails after the cleanup function
  has been deferred (the request succeeded with status 200, the working file was created
  and, if a size was probed, preallocated) ends by closing the working file and removing
  it, before the deferred functions of the connection. When the copy itself fails, the
  error returned is the context's error if the context has one (it was cancelled or timed
  out), and the copy error otherwise.
\<close>

theorem failure_after_cleanup_deferred_removes_working_file:
  assumes "newRequest_err e = None" and "do_result e = Inr 200" and "create_err e = None"
    and "0 < fileSize \<longrightarrow> fst (preallocateFile e (destPath @ IncompleteSuffix) fileSize) = None"
    and "ret (Download T d e rawurl destPath fileSize filename) \<noteq> None"
  shows "(\<exists>cs. calls (Download T d e rawurl destPath fileSize filename) =
              cs @ [FileClose (destPath @ IncompleteSuffix), OsRemove (destPath @ IncompleteSuffix),
                    BodyClose, CloseIdleConnections])
       \<and> (case snd (copy_result e) of
             None \<Rightarrow> True
           | Some err \<Rightarrow>
               ret (Download T d e rawurl destPath fileSize filename)
                 = (case ctx_err e of
                      None \<Rightarrow> Some (Wrapf ''copy error'' err)
                    | Some ctxErr \<Rightarrow> Some ctxErr))"
proof -
  let ?wp = "destPath @ IncompleteSuffix"
  let ?c = "Download_copy T d e ?wp destPath fileSize (0 < fileSize)"
  note eq = Download_after_copy [OF assms(1-4), of T d rawurl filename]
  from assms(5) have n: "ret ?c \<noteq> None" by (simp add: eq Let_def)
  have "calls (Download T d e rawurl destPath fileSize filename) =
          (ClientDo rawurl # OsCreate ?wp #
           (if 0 < fileSize then snd (preallocateFile e ?wp fileSize) else []) @ calls ?c) @
          [FileClose ?wp, OsRemove ?wp, BodyClose, CloseIdleConnections]"
    using n by (simp add: eq Let_def)
  then have c: "\<exists>cs. calls (Download T d e rawurl destPath fileSize filename) =
              cs @ [FileClose ?wp, OsRemove ?wp, BodyClose, CloseIdleConnections]"
    by blast
  have r: "ret (Download T d e rawurl destPath fileSize filename) = ret ?c"
    by (simp add: eq Let_def)
  have "case snd (copy_result e) of
             None \<Rightarrow> True
           | Some err \<Rightarrow>
               ret (Download T d e rawurl destPath fileSize filename)
                 = (case ctx_err e of
                      None \<Rightarrow> Some (Wrapf ''copy error'' err)
                    | Some ctxErr \<Rightarrow> Some ctxErr)"
    unfolding r
    by (auto simp: Download_copy_cancelled Download_copy_copy_error split: option.splits)
  with c show ?thesis by (intro conjI)
qed

theorem failure_after_cleanup_deferred_removes_working_file_witness:
  "Download \<lparr>WorkerBatchSize = 64, WorkerBatchInterval = 10\<rparr>
     \<lparr>ID = ''id'', State = None, Headers = []\<rparr>
     (env_ok\<lparr>copy_result := (40, Some (External ''unexpected EOF'')),
             ctx_err := Some (External ''context canceled'')\<rparr>)
     ''http://h/f'' ''/d/f'' 120 ''f''
   = \<lparr>ret = Some (External ''context canceled''),
      calls = [ClientDo ''http://h/f'', OsCreate ''/d/f.surge'', Fallocate ''/d/f.surge'' 120,
               StreamBody ''/d/f.surge'', FileClose ''/d/f.surge'', OsRemove ''/d/f.surge'',
               BodyClose, CloseIdleConnections],
      updates = []\<rparr>"
proof -
  let ?e = "env_ok\<lparr>copy_result := (40, Some (External ''unexpected EOF'')),
                   ctx_err := Some (External ''context canceled'')\<rparr>"
  let ?T = "\<lparr>WorkerBatchSize = 64, WorkerBatchInterval = 10\<rparr>"
  let ?d = "\<lparr>ID = ''id'', State = None, Headers = []\<rparr>"
  let ?D = "Download ?T ?d ?e ''http://h/f'' ''/d/f'' 120 ''f''"
  have v: "?D = \<lparr>ret = Some (External ''context canceled''),
      calls = [ClientDo ''http://h/f'', OsCreate ''/d/f.surge'', Fallocate ''/d/f.surge'' 120,
               StreamBody ''/d/f.surge'', FileClose ''/d/f.surge'', OsRemove ''/d/f.surge'',
               BodyClose, CloseIdleConnections],
      updates = []\<rparr>"
    by (simp add: Download_def Download_response_def Download_copy_def preallocateFile_def
        copy_updates_def env_ok_def IncompleteSuffix_def Let_def)
  have h: "newRequest_err ?e = None" "do_result ?e = Inr 200" "create_err ?e = None"
    "0 < (120 :: int) \<longrightarrow> fst (preallocateFile ?e (''/d/f'' @ IncompleteSuffix) 120) = None"
    by (simp_all add: env_ok_def preallocateFile_def)
  from v have n: "ret ?D \<noteq> None" by simp
  from failure_after_cleanup_deferred_removes_working_file [OF h n]
  have "ret ?D = Some (External ''context canceled'')" by simp
  with v show ?thesis by simp
qed

text \<open>
  Claim C5, where it fails. The cleanup function is deferred only after the
  preallocation. When the working file has been created and the preallocation fails,
  \<open>Download\<close> returns "failed to preallocate file" without closing the working file and
  without removing it: the last call on the file system is the failed preallocation.
\<close>

theorem failed_preallocation_leaves_working_file:
  "Download \<lparr>WorkerBatchSize = 64, WorkerBatchInterval = 10\<rparr>
     \<lparr>ID = ''id'', State = None, Headers = []\<rparr>
     (env_ok\<lparr>fallocate_err := Some (External ''ENOSPC''),
             prealloc_truncate_err := Some (External ''EFBIG'')\<rparr>)
     ''http://h/f'' ''/d/f'' 120 ''f''
   = \<lparr>ret = Some (Wrapf ''failed to preallocate file'' (External ''EFBIG'')),
      calls = [ClientDo ''http://h/f'', OsCreate ''/d/f.surge'', Fallocate ''/d/f.surge'' 120,
               FileTruncate ''/d/f.surge'' 120, BodyClose, CloseIdleConnections],
      updates = []\<rparr>
   \<and> OsRemove ''/d/f.surge'' \<notin> set (calls (Download \<lparr>WorkerBatchSize = 64, WorkerBatchInterval = 10\<rparr>
     \<lparr>ID = ''id'', State = None, Headers = []\<rparr>
     (env_ok\<lparr>fallocate_err := Some (External ''ENOSPC''),
             prealloc_truncate_err := Some (External ''EFBIG'')\<rparr>)
     ''http://h/f'' ''/d/f'' 120 ''f''))"
  by (simp add: Download_def Download_response_def preallocateFile_def env_ok_def
      IncompleteSuffix_def Let_def)

subsection \<open>Progress updates\<close>

lemma wrap64_id: "- (2 ^ 63) \<le> x \<Longrightarrow> x < 2 ^ 63 \<Longrightarrow> wrap64 x = x"
  by (simp add: wrap64_def)

lemma flushWithTime_state:
  "state (flushWithTime now w) = state w \<or>
   (\<exists>s. state w = Some s \<and>
        state (flushWithTime now w)
          = Some (s\<lparr>Downloaded := written w, VerifiedProgress := written w\<rparr>))"
  by (cases "state w") (simp_all add: flushWithTime_def)

lemma flushWithTime_written: "written (flushWithTime now w) = written w"
  by (cases "state w") (simp_all add: flushWithTime_def)

lemma Read_written:
  "written (Read n now w) =
     (if n \<le> 0 \<or> state w = None then written w else wrap64 (written w + n))"
  by (simp add: Read_def Let_def flushWithTime_written)

lemma Read_state:
  "state (Read n now w) = state w \<or>
   (\<exists>s. state w = Some s \<and>
        state (Read n now w)
          = Some (s\<lparr>Downloaded := written (Read n now w),
                    VerifiedProgress := written (Read n now w)\<rparr>))"
proof (cases "n \<le> 0 \<or> state w = None")
  case True
  then show ?thesis by (auto simp: Read_def)
next
  case False
  let ?w1 = "w\<lparr>written := wrap64 (written w + n), pending := wrap64 (pending w + n)\<rparr>"
  let ?w2 = "?w1\<lparr>readChecks := readChecks ?w1 + 1\<rparr>"
  have f1: "state (flushWithTime now ?w1) = state w \<or>
      (\<exists>s. state w = Some s \<and> state (flushWithTime now ?w1)
          = Some (s\<lparr>Downloaded := wrap64 (written w + n),
                    VerifiedProgress := wrap64 (written w + n)\<rparr>))"
    using flushWithTime_state [of now ?w1] by simp
  have f2: "state (flushWithTime now ?w2) = state w \<or>
      (\<exists>s. state w = Some s \<and> state (flushWithTime now ?w2)
          = Some (s\<lparr>Downloaded := wrap64 (written w + n),
                    VerifiedProgress := wrap64 (written w + n)\<rparr>))"
    using flushWithTime_state [of now ?w2] by simp
  from False have wr: "written (Read n now w) = wrap64 (written w + n)"
    by (auto simp: Read_written)
  from False f1 f2 show ?thesis
    unfolding wr by (auto simp: Read_def Let_def)
qed

text \<open>
  What the reads keep: the progress state is there, and it is the one the download
  started with or has equal counters.
\<close>

lemma Read_keeps_equal:
  assumes "state w = Some s" and "s = s0 \<or> VerifiedProgress s = Downloaded s"
  shows "\<exists>s'. state (Read n now w) = Some s' \<and>
              (s' = s0 \<or> VerifiedProgress s' = Downloaded s')"
  using Read_state [of n now w] assms by auto

lemma reads_keep_equal:
  assumes "state w = Some s" and "s = s0 \<or> VerifiedProgress s = Downloaded s"
  shows "\<forall>w' \<in> set (w # reads rs w).
           \<exists>s'. state w' = Some s' \<and> (s' = s0 \<or> VerifiedProgress s' = Downloaded s')"
  using assms
proof (induction rs arbitrary: w s)
  case Nil
  then show ?case by simp
next
  case (Cons r rs)
  obtain n now where r: "r = (n, now)" by (cases r)
  from Read_keeps_equal [OF Cons.prems, of n now] obtain s' where
    s': "state (Read n now w) = Some s'" "s' = s0 \<or> VerifiedProgress s' = Downloaded s'"
    by blast
  from Cons.IH [OF s'] Cons.prems show ?case by (simp add: r)
qed

lemma progress_of_set:
  "s \<in> set (progress_of ws) \<longleftrightarrow> (\<exists>w \<in> set ws. state w = Some s)"
  by (induction ws) (auto split: option.splits)

lemma progress_of_append: "progress_of (xs @ ys) = progress_of xs @ progress_of ys"
  by (induction xs) (auto split: option.splits)

lemma copy_updates_equal:
  assumes "s \<in> set (copy_updates T e st)"
  shows "st = Some s \<or> VerifiedProgress s = Downloaded s"
proof (cases st)
  case None
  with assms show ?thesis by (simp add: copy_updates_def)
next
  case (Some s0)
  let ?r = "newProgressReader (WorkerBatchSize T) (Some s0) (WorkerBatchSize T)
              (WorkerBatchInterval T) (start_clock e)"
  let ?rs = "reads (body_reads e) ?r"
  let ?f = "Flush (flush_clock e) (last (?r # ?rs))"
  have st: "state ?r = Some s0" by (simp add: newProgressReader_def)
  from reads_keep_equal [OF st, of s0 "body_reads e"]
  have all: "\<forall>w' \<in> set (?r # ?rs).
      \<exists>s'. state w' = Some s' \<and> (s' = s0 \<or> VerifiedProgress s' = Downloaded s')"
    by simp
  have "last (?r # ?rs) \<in> set (?r # ?rs)" by (rule last_in_set) simp
  with all obtain sl where
    sl: "state (last (?r # ?rs)) = Some sl" "sl = s0 \<or> VerifiedProgress sl = Downloaded sl"
    by blast
  from flushWithTime_state [of "flush_clock e" "last (?r # ?rs)"] sl
  have fl: "\<exists>s'. state ?f = Some s' \<and> (s' = s0 \<or> VerifiedProgress s' = Downloaded s')"
    unfolding Flush_def by auto
  from assms Some have "s \<in> set (progress_of (?rs @ [?f]))"
    by (simp add: copy_updates_def Let_def)
  then obtain w' where w': "w' \<in> set (?rs @ [?f])" "state w' = Some s"
    unfolding progress_of_set by blast
  with all fl Some show ?thesis by auto
qed

lemma Download_copy_updates:
  "updates (Download_copy T d e wp destPath fileSize preallocated) = copy_updates T e (State d) \<or>
   (\<exists>s0. State d = Some s0 \<and> snd (copy_result e) = None \<and>
      updates (Download_copy T d e wp destPath fileSize preallocated)
        = copy_updates T e (State d) @
          [(last (s0 # copy_updates T e (State d)))
             \<lparr>Downloaded := fst (copy_result e), VerifiedProgress := fst (copy_result e)\<rparr>])"
  by (auto simp: Download_copy_def Let_def split: option.splits prod.splits)

lemma Download_copy_success_updates:
  assumes "ret (Download_copy T d e wp destPath fileSize preallocated) = None"
    and "State d = Some s0"
  shows "updates (Download_copy T d e wp destPath fileSize preallocated)
        = copy_updates T e (State d) @
          [(last (s0 # copy_updates T e (State d)))
             \<lparr>Downloaded := fst (copy_result e), VerifiedProgress := fst (copy_result e)\<rparr>]"
  using assms
  by (auto simp: Download_copy_def Let_def split: option.splits prod.splits if_splits)

lemma Download_updates:
  "updates (Download T d e rawurl destPath fileSize filename) = [] \<or>
   updates (Download T d e rawurl destPath fileSize filename)
     = updates (Download_copy T d e (destPath @ IncompleteSuffix) destPath fileSize (0 < fileSize))"
  by (auto simp: Download_def Download_response_def Let_def
           split: option.splits sum.splits prod.splits)

lemma bytes_read_nonneg: "0 \<le> bytes_read rs"
  unfolding bytes_read_def by (induction rs) auto

lemma bytes_read_Cons: "bytes_read ((n, now) # rs) = max 0 n + bytes_read rs"
  by (simp add: bytes_read_def)

lemma Read_keeps_inv:
  assumes "state w = Some s" and "progress_inv s" and "0 \<le> written w"
    and "written w + max 0 n < 2 ^ 63"
  shows "\<exists>s'. state (Read n now w) = Some s' \<and> progress_inv s' \<and>
              written (Read n now w) = written w + max 0 n"
proof -
  have wr: "written (Read n now w) = written w + max 0 n"
  proof (cases "n \<le> 0")
    case True
    then show ?thesis by (simp add: Read_written)
  next
    case False
    with assms(3,4) have "wrap64 (written w + n) = written w + n"
      by (intro wrap64_id) simp_all
    with False assms(1) show ?thesis by (simp add: Read_written)
  qed
  with assms(3) have "0 \<le> written (Read n now w)" by simp
  with Read_state [of n now w] assms(1,2) wr show ?thesis
    by (auto simp: progress_inv_def)
qed

lemma reads_keep_inv:
  assumes "state w = Some s" and "progress_inv s" and "0 \<le> written w"
    and "written w + bytes_read rs < 2 ^ 63"
  shows "\<forall>w' \<in> set (w # reads rs w). \<exists>s'. state w' = Some s' \<and> progress_inv s' \<and> 0 \<le> written w'"
  using assms
proof (induction rs arbitrary: w s)
  case Nil
  then show ?case by simp
next
  case (Cons r rs)
  obtain n now where r: "r = (n, now)" by (cases r)
  from Cons.prems(4) bytes_read_nonneg [of rs]
  have b: "written w + max 0 n < 2 ^ 63"
    by (simp add: r bytes_read_Cons)
  from Read_keeps_inv [OF Cons.prems(1-3) b, of now] obtain s' where
    s': "state (Read n now w) = Some s'" "progress_inv s'"
        "written (Read n now w) = written w + max 0 n"
    by blast
  from s'(3) Cons.prems(3) have nn: "0 \<le> written (Read n now w)" by simp
  from s'(3) Cons.prems(4) have "written (Read n now w) + bytes_read rs < 2 ^ 63"
    by (simp add: r bytes_read_Cons)
  from Cons.IH [OF s'(1,2) nn this] Cons.prems(1-3) show ?case by (simp add: r)
qed

lemma copy_updates_inv:
  assumes "progress_inv s0" and "bytes_read (body_reads e) < 2 ^ 63"
    and "s \<in> set (copy_updates T e (Some s0))"
  shows "progress_inv s"
proof -
  let ?r = "newProgressReader (WorkerBatchSize T) (Some s0) (WorkerBatchSize T)
              (WorkerBatchInterval T) (start_clock e)"
  let ?rs = "reads (body_reads e) ?r"
  let ?f = "Flush (flush_clock e) (last (?r # ?rs))"
  have st: "state ?r = Some s0" and wr: "written ?r = 0"
    by (simp_all add: newProgressReader_def)
  from assms(2) wr have b: "written ?r + bytes_read (body_reads e) < 2 ^ 63" by simp
  from wr have z: "0 \<le> written ?r" by simp
  note all = reads_keep_inv [OF st assms(1) z b]
  have "last (?r # ?rs) \<in> set (?r # ?rs)" by (rule last_in_set) simp
  with all obtain sl where
    sl: "state (last (?r # ?rs)) = Some sl" "progress_inv sl" "0 \<le> written (last (?r # ?rs))"
    by blast
  from flushWithTime_state [of "flush_clock e" "last (?r # ?rs)"] sl
  have fl: "\<exists>s'. state ?f = Some s' \<and> progress_inv s'"
    unfolding Flush_def by (auto simp: progress_inv_def)
  from assms(3) have "s \<in> set (progress_of (?rs @ [?f]))"
    by (simp add: copy_updates_def Let_def)
  then obtain w' where w': "w' \<in> set (?rs @ [?f])" "state w' = Some s"
    unfolding progress_of_set by blast
  with all fl show ?thesis by auto
qed

text \<open>
  Claim C6. Every progress update of the single-connection fetcher stores the same value
  to \<open>verified_progress\<close> and to \<open>downloaded\<close>. For \<open>flushWithTime\<close>, through which the
  batched flushes during the copy and the flush after it go: it leaves the progress state
  alone or sets both counters to the reader's \<open>written\<close>. For a whole download: each of the
  successive contents of the progress state is the content the download started with or
  has equal counters, and after a successful download both counters are the number of
  bytes written. So the invariant \<open>0 \<le> verified_progress \<le> downloaded\<close> is preserved by
  every update: if it holds when the download starts, it holds in all the successive
  contents, provided the byte counts are what they can be (the copy reports a count that is
  not negative, and the body delivers less than \<open>2^63\<close> bytes, the range of the \<open>int64\<close>
  counter \<open>written\<close>).
\<close>

theorem progress_updates_store_equal_counters:
  "(state (flushWithTime now w) = state w \<or>
      (\<exists>s. state w = Some s \<and>
           state (flushWithTime now w)
             = Some (s\<lparr>Downloaded := written w, VerifiedProgress := written w\<rparr>)))
   \<and> (\<forall>s \<in> set (updates (Download T d e rawurl destPath fileSize filename)).
         State d = Some s \<or> VerifiedProgress s = Downloaded s)
   \<and> (ret (Download T d e rawurl destPath fileSize filename) = None \<and> State d \<noteq> None \<longrightarrow>
         updates (Download T d e rawurl destPath fileSize filename) \<noteq> [] \<and>
         Downloaded (last (updates (Download T d e rawurl destPath fileSize filename)))
           = fst (copy_result e) \<and>
         VerifiedProgress (last (updates (Download T d e rawurl destPath fileSize filename)))
           = fst (copy_result e))
   \<and> (\<forall>s0. State d = Some s0 \<and> progress_inv s0 \<and> 0 \<le> fst (copy_result e) \<and>
             bytes_read (body_reads e) < 2 ^ 63 \<longrightarrow>
         (\<forall>s \<in> set (updates (Download T d e rawurl destPath fileSize filename)).
            progress_inv s))"
proof (intro conjI ballI allI impI)
  show "state (flushWithTime now w) = state w \<or>
      (\<exists>s. state w = Some s \<and>
           state (flushWithTime now w)
             = Some (s\<lparr>Downloaded := written w, VerifiedProgress := written w\<rparr>))"
    by (rule flushWithTime_state)
next
  let ?D = "Download T d e rawurl destPath fileSize filename"
  let ?C = "Download_copy T d e (destPath @ IncompleteSuffix) destPath fileSize (0 < fileSize)"
  fix s
  assume "s \<in> set (updates ?D)"
  with Download_updates [of T d e rawurl destPath fileSize filename]
  have "s \<in> set (updates ?C)" by auto
  with Download_copy_updates [of T d e "destPath @ IncompleteSuffix" destPath fileSize "0 < fileSize"]
  have "s \<in> set (copy_updates T e (State d)) \<or> VerifiedProgress s = Downloaded s"
    by auto
  then show "State d = Some s \<or> VerifiedProgress s = Downloaded s"
    using copy_updates_equal by blast
next
  let ?D = "Download T d e rawurl destPath fileSize filename"
  let ?C = "Download_copy T d e (destPath @ IncompleteSuffix) destPath fileSize (0 < fileSize)"
  assume a: "ret ?D = None \<and> State d \<noteq> None"
  then obtain s0 where s0: "State d = Some s0" by auto
  from a have r0: "ret ?D = None" by simp
  have c: "ret ?C = None" by (rule Download_success_reaches_copy(5) [OF r0])
  have n: "newRequest_err e = None" "do_result e = Inr 200" "create_err e = None"
    "0 < fileSize \<longrightarrow> fst (preallocateFile e (destPath @ IncompleteSuffix) fileSize) = None"
    using Download_success_reaches_copy [OF r0] by simp_all
  have "updates ?D = updates ?C"
    by (simp add: Download_after_copy [OF n] Let_def)
  with Download_copy_success_updates [OF c s0]
  show "updates ?D \<noteq> []"
    and "Downloaded (last (updates ?D)) = fst (copy_result e)"
    and "VerifiedProgress (last (updates ?D)) = fst (copy_result e)"
    by simp_all
next
  let ?D = "Download T d e rawurl destPath fileSize filename"
  let ?C = "Download_copy T d e (destPath @ IncompleteSuffix) destPath fileSize (0 < fileSize)"
  fix s0 s
  assume h: "State d = Some s0 \<and> progress_inv s0 \<and> 0 \<le> fst (copy_result e) \<and>
             bytes_read (body_reads e) < 2 ^ 63"
    and "s \<in> set (updates ?D)"
  with Download_updates [of T d e rawurl destPath fileSize filename]
  have "s \<in> set (updates ?C)" by auto
  with Download_copy_updates [of T d e "destPath @ IncompleteSuffix" destPath fileSize "0 < fileSize"] h
  have "s \<in> set (copy_updates T e (Some s0)) \<or>
        (VerifiedProgress s = fst (copy_result e) \<and> Downloaded s = fst (copy_result e))"
    by auto
  then show "progress_inv s"
  proof
    assume "s \<in> set (copy_updates T e (Some s0))"
    with h show ?thesis using copy_updates_inv by blast
  next
    assume "VerifiedProgress s = fst (copy_result e) \<and> Downloaded s = fst (copy_result e)"
    with h show ?thesis by (simp add: progress_inv_def)
  qed
qed

theorem progress_updates_store_equal_counters_witness:
  "progress_inv \<lparr>Downloaded = 0, VerifiedProgress = 0\<rparr>
   \<and> 0 \<le> fst (copy_result env_ok) \<and> bytes_read (body_reads env_ok) < 2 ^ 63
   \<and> updates (Download \<lparr>WorkerBatchSize = 64, WorkerBatchInterval = 10\<rparr>
        \<lparr>ID = ''id'', State = Some \<lparr>Downloaded = 0, VerifiedProgress = 0\<rparr>, Headers = []\<rparr>
        env_ok ''http://h/f'' ''/d/f'' 120 ''f'')
     = [\<lparr>Downloaded = 0, VerifiedProgress = 0\<rparr>, \<lparr>Downloaded = 90, VerifiedProgress = 90\<rparr>,
        \<lparr>Downloaded = 90, VerifiedProgress = 90\<rparr>, \<lparr>Downloaded = 100, VerifiedProgress = 100\<rparr>,
        \<lparr>Downloaded = 100, VerifiedProgress = 100\<rparr>]
   \<and> list_all progress_inv
        (updates (Download \<lparr>WorkerBatchSize = 64, WorkerBatchInterval = 10\<rparr>
           \<lparr>ID = ''id'', State = Some \<lparr>Downloaded = 0, VerifiedProgress = 0\<rparr>, Headers = []\<rparr>
           env_ok ''http://h/f'' ''/d/f'' 120 ''f''))"
proof -
  let ?T = "\<lparr>WorkerBatchSize = 64, WorkerBatchInterval = 10\<rparr>"
  let ?s0 = "\<lparr>Downloaded = 0, VerifiedProgress = 0\<rparr>"
  let ?d = "\<lparr>ID = ''id'', State = Some ?s0, Headers = []\<rparr>"
  let ?D = "Download ?T ?d env_ok ''http://h/f'' ''/d/f'' 120 ''f''"
  have i: "progress_inv ?s0" by (simp add: progress_inv_def)
  have c: "0 \<le> fst (copy_result env_ok)" by (simp add: env_ok_def)
  have b: "bytes_read (body_reads env_ok) < 2 ^ 63" by (simp add: env_ok_def bytes_read_def)
  have cu: "copy_updates ?T env_ok (Some ?s0)
      = [?s0, \<lparr>Downloaded = 90, VerifiedProgress = 90\<rparr>,
         \<lparr>Downloaded = 90, VerifiedProgress = 90\<rparr>, \<lparr>Downloaded = 100, VerifiedProgress = 100\<rparr>]"
    by (simp add: copy_updates_def env_ok_def Let_def newProgressReader_def Read_def Flush_def
        flushWithTime_def wrap64_def time_Sub_def)
  have u: "updates ?D
      = [?s0, \<lparr>Downloaded = 90, VerifiedProgress = 90\<rparr>,
         \<lparr>Downloaded = 90, VerifiedProgress = 90\<rparr>, \<lparr>Downloaded = 100, VerifiedProgress = 100\<rparr>,
         \<lparr>Downloaded = 100, VerifiedProgress = 100\<rparr>]"
    by (simp add: Download_def Download_response_def Download_copy_def preallocateFile_def
        cu [unfolded env_ok_def] env_ok_def Let_def)
  from progress_updates_store_equal_counters [of _ _ ?T ?d env_ok "''http://h/f''" "''/d/f''" 120 "''f''"]
  have "\<forall>s0. State ?d = Some s0 \<and> progress_inv s0 \<and> 0 \<le> fst (copy_result env_ok) \<and>
             bytes_read (body_reads env_ok) < 2 ^ 63 \<longrightarrow>
         (\<forall>s \<in> set (updates ?D). progress_inv s)"
    by blast
  with i c b have "\<forall>s \<in> set (updates ?D). progress_inv s" by simp
  then have "list_all progress_inv (updates ?D)" by (simp only: list_all_iff)
  with i c b u show ?thesis by (intro conjI)
qed

section \<open>Properties of the lifecycle events\<close>

lemmas EventType_defs =
  EventTypeProgress_def EventTypeStarted_def EventTypeComplete_def EventTypeError_def
  EventTypePaused_def EventTypeResumed_def EventTypeQueued_def EventTypeRemoved_def
  EventTypeRequest_def EventTypeSystem_def

lemma EventTypeForMessage_spec:
  "spec_event_name m = Some name \<Longrightarrow> EventTypeForMessage m = (name, True)"
  by (cases m) (simp_all add: EventType_defs)

lemma encode_batch_frames:
  "case encode_batch J ps frames of
     Inl err \<Rightarrow> \<exists>p \<in> set ps. Marshal_ProgressMsg J p = Inl err
   | Inr fs \<Rightarrow>
       fs = frames @ drop (length frames) fs \<and>
       length fs = length frames + length ps \<and>
       map Event (drop (length frames) fs) = replicate (length ps) ''progress'' \<and>
       map (\<lambda>f. Inr (Data f)) (drop (length frames) fs) = map (Marshal_ProgressMsg J) ps"
proof (induction ps arbitrary: frames)
  case Nil
  show ?case by simp
next
  case (Cons p ps)
  show ?case
  proof (cases "Marshal_ProgressMsg J p")
    case (Inl err)
    then show ?thesis by simp
  next
    case (Inr data)
    let ?f = "\<lparr>Event = EventTypeProgress, Data = data\<rparr>"
    from Cons.IH [of "frames @ [?f]"] show ?thesis
    proof (cases "encode_batch J ps (frames @ [?f])")
      case (Inl err)
      with Cons.IH [of "frames @ [?f]"] Inr show ?thesis by auto
    next
      case fs: (Inr fs)
      with Cons.IH [of "frames @ [?f]"] have
        a: "fs = (frames @ [?f]) @ drop (Suc (length frames)) fs"
        and l: "length fs = Suc (length frames) + length ps"
        and e: "map Event (drop (Suc (length frames)) fs) = replicate (length ps) ''progress''"
        and d: "map (\<lambda>f. Inr (Data f)) (drop (Suc (length frames)) fs)
                  = map (Marshal_ProgressMsg J) ps"
        by simp_all
      from a have dr: "drop (length frames) fs = ?f # drop (Suc (length frames)) fs"
        by (metis append.assoc append_Cons append_Nil append_eq_conv_conj)
      from a have pre: "fs = frames @ drop (length frames) fs"
        by (metis append.assoc append_eq_conv_conj)
      from fs Inr pre l e d show ?thesis
        by (simp add: dr EventTypeProgress_def)
    qed
  qed
qed

lemma round_trip_plain:
  assumes "json_carries J m"
  shows "\<exists>name data. spec_event_name m = Some name \<and>
           EncodeSSEMessages J m = Inr [\<lparr>Event = name, Data = data\<rparr>] \<and>
           DecodeSSEMessage J name data = (Some (transmitted m), True, None)"
proof (cases m)
  case (MsgError e)
  let ?text = "case error_Err e of None \<Rightarrow> [] | Some t \<Rightarrow> t"
  let ?out = "\<lparr>encoded_DownloadID = error_DownloadID e, encoded_Filename = error_Filename e,
               encoded_Err = ?text\<rparr>"
  have mj: "MarshalJSON J e = Marshal_encoded J ?out"
    by (cases "error_Err e") (simp_all add: MarshalJSON_def)
  from assms MsgError obtain data a where
    d: "Marshal_encoded J ?out = Inr data" and a: "Unmarshal_aux J data = Inr a"
    and i: "aux_DownloadID a = error_DownloadID e" "aux_Filename a = error_Filename e"
    and t: "if ?text = [] then aux_Err a = []
            else aux_Err a \<noteq> [] \<and> Unmarshal_string J (aux_Err a) = Inr ?text"
    by (auto simp: Let_def split: sum.splits)
  have u: "UnmarshalJSON J data
      = Inr (e\<lparr>error_Err := (if error_Err e = Some [] then None else error_Err e)\<rparr>)"
  proof (cases "?text = []")
    case True
    with t have "aux_Err a = []" by simp
    moreover from True have "error_Err e = None \<or> error_Err e = Some []"
      by (cases "error_Err e") simp_all
    ultimately show ?thesis
      using a i by (auto simp: UnmarshalJSON_def)
  next
    case False
    with t have r: "aux_Err a \<noteq> []" "Unmarshal_string J (aux_Err a) = Inr ?text" by simp_all
    from False obtain errText where s: "error_Err e = Some errText" "errText \<noteq> []"
      by (cases "error_Err e") simp_all
    with r a i show ?thesis
      by (simp add: UnmarshalJSON_def)
  qed
  from d u mj MsgError show ?thesis
    by (simp add: DecodeSSEMessage_def EventType_defs)
qed (use assms in \<open>auto simp: DecodeSSEMessage_def EventType_defs split: sum.splits\<close>)

text \<open>
  Claim C8, as amended. For every lifecycle message (progress, started, complete, error,
  paused, resumed, queued, removed, request, system) whose transmitted fields
  \<open>encoding/json\<close> marshals and reads back, \<open>EncodeSSEMessages\<close> produces exactly one frame,
  with the event name of the message type, and \<open>DecodeSSEMessage\<close> on the event name and
  the data of that frame returns the message as it is transmitted: equal to the original,
  except that the \<open>State\<close> of a started message is \<open>nil\<close> and that an error comes back as
  an error with the same text, an error with empty text as \<open>nil\<close>. A batch of \<open>n\<close> progress
  messages becomes exactly \<open>n\<close> frames of event type \<open>progress\<close>, the data of each being
  what \<open>json.Marshal\<close> returns for the message at its position; when one of the messages
  does not marshal, the result is its error.
\<close>

theorem frame_round_trip_up_to_untransmitted_fields:
  "(json_carries J m \<longrightarrow>
      (\<exists>name data. spec_event_name m = Some name \<and>
         EncodeSSEMessages J m = Inr [\<lparr>Event = name, Data = data\<rparr>] \<and>
         DecodeSSEMessage J name data = (Some (transmitted m), True, None)))
   \<and> (case EncodeSSEMessages J (MsgBatchProgress ps) of
         Inl err \<Rightarrow> \<exists>p \<in> set ps. Marshal_ProgressMsg J p = Inl err
       | Inr frames \<Rightarrow>
           length frames = length ps \<and>
           map Event frames = replicate (length ps) ''progress'' \<and>
           map (\<lambda>f. Inr (Data f)) frames = map (Marshal_ProgressMsg J) ps)"
proof
  show "json_carries J m \<longrightarrow>
      (\<exists>name data. spec_event_name m = Some name \<and>
         EncodeSSEMessages J m = Inr [\<lparr>Event = name, Data = data\<rparr>] \<and>
         DecodeSSEMessage J name data = (Some (transmitted m), True, None))"
    using round_trip_plain by blast
  show "case EncodeSSEMessages J (MsgBatchProgress ps) of
         Inl err \<Rightarrow> \<exists>p \<in> set ps. Marshal_ProgressMsg J p = Inl err
       | Inr frames \<Rightarrow>
           length frames = length ps \<and>
           map Event frames = replicate (length ps) ''progress'' \<and>
           map (\<lambda>f. Inr (Data f)) frames = map (Marshal_ProgressMsg J) ps"
    using encode_batch_frames [where J = J and ps = ps and frames = "[]"]
    by (simp split: sum.splits)
qed

theorem frame_round_trip_up_to_untransmitted_fields_witness:
  "json_carries json_excerpt (MsgError error_example)
   \<and> EncodeSSEMessages json_excerpt (MsgError error_example)
       = Inr [\<lparr>Event = ''error'', Data = error_json\<rparr>]
   \<and> DecodeSSEMessage json_excerpt ''error'' error_json = (Some (MsgError error_example), True, None)
   \<and> EncodeSSEMessages json_excerpt (MsgBatchProgress []) = Inr []"
proof -
  have c: "json_carries json_excerpt (MsgError error_example)"
    by (simp add: json_excerpt_def error_example_def error_json_def boom_json_def)
  have e: "EncodeSSEMessages json_excerpt (MsgError error_example)
       = Inr [\<lparr>Event = ''error'', Data = error_json\<rparr>]"
    by (simp add: json_excerpt_def error_example_def MarshalJSON_def EventTypeError_def)
  have t: "transmitted (MsgError error_example) = MsgError error_example"
    by (simp add: error_example_def)
  from frame_round_trip_up_to_untransmitted_fields
         [where J = json_excerpt and m = "MsgError error_example" and ps = "[]"] c
  obtain name data where
    "spec_event_name (MsgError error_example) = Some name"
    "EncodeSSEMessages json_excerpt (MsgError error_example) = Inr [\<lparr>Event = name, Data = data\<rparr>]"
    "DecodeSSEMessage json_excerpt name data = (Some (transmitted (MsgError error_example)), True, None)"
    by blast
  with e t have d: "DecodeSSEMessage json_excerpt ''error'' error_json
      = (Some (MsgError error_example), True, None)"
    by simp
  have b: "EncodeSSEMessages json_excerpt (MsgBatchProgress []) = Inr []" by simp
  from c e d b show ?thesis by (intro conjI)
qed

text \<open>
  Claim C8, as stated, fails. A started message that carries a progress state is encoded
  into one frame of event type \<open>started\<close>, and the frame decodes into the message without
  the progress state, which is not the original; whatever \<open>encoding/json\<close> does, no frame
  decodes into a started message with a progress state. And a progress message whose speed
  is not a number is not encoded into a frame at all, because \<open>json.Marshal\<close> refuses it.
\<close>

theorem started_state_is_lost_counterexample:
  "EncodeSSEMessages json_excerpt (MsgStarted started_with_state)
     = Inr [\<lparr>Event = ''started'', Data = started_json\<rparr>]
   \<and> DecodeSSEMessage json_excerpt ''started'' started_json
       = (Some (MsgStarted started_example), True, None)
   \<and> MsgStarted started_example \<noteq> MsgStarted started_with_state
   \<and> \<not> (\<exists>J eventType data. DecodeSSEMessage J eventType data
                               = (Some (MsgStarted started_with_state), True, None))
   \<and> EncodeSSEMessages json_excerpt (MsgProgress progress_nan)
       = Inl (External ''json: unsupported value: NaN'')"
proof (intro conjI)
  show "EncodeSSEMessages json_excerpt (MsgStarted started_with_state)
     = Inr [\<lparr>Event = ''started'', Data = started_json\<rparr>]"
    by (simp add: json_excerpt_def started_with_state_def started_example_def
        EventTypeStarted_def)
  show "DecodeSSEMessage json_excerpt ''started'' started_json
       = (Some (MsgStarted started_example), True, None)"
    by (simp add: DecodeSSEMessage_def json_excerpt_def started_example_def EventType_defs)
  show "MsgStarted started_example \<noteq> MsgStarted started_with_state"
    by (simp add: started_with_state_def started_example_def)
  show "\<not> (\<exists>J eventType data. DecodeSSEMessage J eventType data
                               = (Some (MsgStarted started_with_state), True, None))"
  proof
    assume "\<exists>J eventType data. DecodeSSEMessage J eventType data
                               = (Some (MsgStarted started_with_state), True, None)"
    then obtain J eventType data where
      d: "DecodeSSEMessage J eventType data = (Some (MsgStarted started_with_state), True, None)"
      by blast
    then obtain m where "m\<lparr>started_State := None\<rparr> = started_with_state"
      by (auto simp: DecodeSSEMessage_def split: if_splits sum.splits)
    then have "started_State (m\<lparr>started_State := None\<rparr>) = started_State started_with_state"
      by simp
    then have "started_State started_with_state = None" by simp
    then show False by (simp add: started_with_state_def)
  qed
  show "EncodeSSEMessages json_excerpt (MsgProgress progress_nan)
       = Inl (External ''json: unsupported value: NaN'')"
    by (simp add: json_excerpt_def)
qed

end
